theory Spec2Isabelle
  imports Complex_Main
begin

unbundle bit_operations_syntax

section \<open>Shallow embedding of ManagedRaster.h\<close>

text \<open>
  The header \<^verbatim>\<open>src/natcap/invest/managed_raster/ManagedRaster.h\<close> is embedded as follows.
  \<^item> C++ \<^verbatim>\<open>int\<close> and \<^verbatim>\<open>long\<close> values are HOL integers; no computation of the header is
    close to the 32-bit range on a raster that fits a GDAL dataset, so arithmetic
    overflow is not modelled.  \<^verbatim>\<open>&\<close> is \<open>AND\<close> and \<^verbatim>\<open>>>\<close> is \<open>drop_bit\<close> on two's
    complement integers; \<^verbatim>\<open>/\<close> and \<^verbatim>\<open>%\<close> truncate towards zero (\<open>cdiv\<close>, \<open>cmod\<close>).
  \<^item> \<^verbatim>\<open>double\<close> and \<^verbatim>\<open>float\<close> values are real numbers: the cache only stores and returns
    them, and the one arithmetic operation on them is the quotient of two small integers
    in the upslope iterator, whose rounding to single precision is not modelled.
  \<^item> Exceptions and undefined behaviour are values of type \<open>error\<close>; a function that can
    raise or run into undefined behaviour returns \<open>error + 'a\<close>.
  \<^item> Member functions take the object and return the updated object.
  \<^item> GDAL is an in-memory dataset: a band is a total function from pixel coordinates to
    values, and \<^verbatim>\<open>RasterIO\<close> reads and writes windows of it.  I/O failures, which the
    header only reports on \<^verbatim>\<open>std::cerr\<close>, do not occur in this model.
\<close>

datatype error =
    InvalidBandId            \<comment> \<open>\<^verbatim>\<open>std::invalid_argument\<close>: band ID is not a valid band number\<close>
  | BlockSizeNotPowerOfTwo   \<comment> \<open>\<^verbatim>\<open>std::invalid_argument\<close>: block size is not a power of two\<close>
  | NullDereference          \<comment> \<open>undefined: \<^verbatim>\<open>GDALOpen\<close> returned a null dataset\<close>
  | FloatToIntUndefined      \<comment> \<open>undefined: conversion of a non-representable double to int\<close>
  | DivisionByZero           \<comment> \<open>undefined: integer division by zero\<close>
  | FloatDivisionByZero      \<comment> \<open>float division by zero\<close>
  | IndexOutOfRange          \<comment> \<open>undefined: array access outside the array\<close>
  | KeyNotInCache            \<comment> \<open>\<^verbatim>\<open>LRUCache::get\<close> on an absent key\<close>
  | UseAfterClose            \<comment> \<open>undefined: any call after \<^verbatim>\<open>close()\<close>\<close>
  | InvalidDelete            \<comment> \<open>undefined: \<^verbatim>\<open>delete\<close> of the static end sentinel\<close>

subsection \<open>C++ integer operations\<close>

definition cdiv :: "int \<Rightarrow> int \<Rightarrow> int" where
  "cdiv a b = sgn a * sgn b * (\<bar>a\<bar> div \<bar>b\<bar>)"

definition cmod :: "int \<Rightarrow> int \<Rightarrow> int" where
  "cmod a b = a - b * cdiv a b"

text \<open>\<^verbatim>\<open>(int) log2(n)\<close> for a positive \<open>n\<close>: the position of the highest set bit.\<close>

fun log2_floor :: "nat \<Rightarrow> nat" where
  "log2_floor n = (if n < 2 then 0 else Suc (log2_floor (n div 2)))"

declare log2_floor.simps [simp del]

subsection \<open>Global tables\<close>

definition MANAGED_RASTER_N_BLOCKS :: nat where
  "MANAGED_RASTER_N_BLOCKS = 2 ^ 6"

definition ROW_OFFSETS :: "int list" where
  "ROW_OFFSETS = [0, -1, -1, -1, 0, 1, 1, 1]"

definition COL_OFFSETS :: "int list" where
  "COL_OFFSETS = [1, 1, 0, -1, -1, -1, 0, 1]"

definition FLOW_DIR_REVERSE_DIRECTION :: "int list" where
  "FLOW_DIR_REVERSE_DIRECTION = [4, 5, 6, 7, 0, 1, 2, 3]"

definition INFLOW_OFFSETS :: "int list" where
  "INFLOW_OFFSETS = [4, 5, 6, 7, 0, 1, 2, 3]"

text \<open>Reading \<^verbatim>\<open>table[i]\<close>; an index outside the eight entries is an out-of-range access.\<close>

definition table_at :: "int list \<Rightarrow> int \<Rightarrow> error + int" where
  "table_at tbl i = (if 0 \<le> i \<and> i < int (length tbl) then Inr (tbl ! nat i) else Inl IndexOutOfRange)"

subsection \<open>The GDAL interface the header consumes\<close>

datatype GDALAccess = GA_ReadOnly | GA_Update

record GDALRasterBand =
  band_block_xsize :: int
  band_block_ysize :: int
  band_nodata :: "real option"
  band_pixels :: "int \<Rightarrow> int \<Rightarrow> real"

record GDALDataset =
  ds_access :: GDALAccess
  ds_raster_x_size :: int
  ds_raster_y_size :: int
  ds_bands :: "GDALRasterBand list"
  ds_geotransform :: "real list"

text \<open>
  \<^verbatim>\<open>GDALOpen(path, access)\<close>: the file system maps a path to the dataset stored there;
  the handle records the access mode it was opened with.  A missing file gives the
  null pointer.
\<close>

definition GDALOpen :: "(string \<rightharpoonup> GDALDataset) \<Rightarrow> string \<Rightarrow> GDALAccess \<Rightarrow> GDALDataset option" where
  "GDALOpen fs path access = map_option (\<lambda>d. d\<lparr>ds_access := access\<rparr>) (fs path)"

definition GetRasterCount :: "GDALDataset \<Rightarrow> int" where
  "GetRasterCount d = int (length (ds_bands d))"

definition GetRasterBand :: "GDALDataset \<Rightarrow> int \<Rightarrow> GDALRasterBand" where
  "GetRasterBand d band_id = ds_bands d ! nat (band_id - 1)"

text \<open>
  \<^verbatim>\<open>GetActualBlockSize\<close>: the valid width and height of block \<open>(bx, by)\<close>, which is the
  block size except for the partial blocks at the right and bottom edges.
\<close>

definition GetActualBlockSize :: "int \<Rightarrow> int \<Rightarrow> int \<Rightarrow> int \<Rightarrow> int \<Rightarrow> int \<Rightarrow> int \<times> int" where
  "GetActualBlockSize W H Bx By bx by =
     ((if bx * Bx + Bx > W then W - bx * Bx else Bx),
      (if by * By + By > H then H - by * By else By))"

text \<open>
  \<^verbatim>\<open>RasterIO(GF_Read, xoff, yoff, xsize, ysize, buf, ...)\<close> fills \<open>buf\<close> row by row with
  the window; \<^verbatim>\<open>RasterIO(GF_Write, ...)\<close> stores the buffer into the window.
\<close>

definition RasterIO_Read :: "GDALRasterBand \<Rightarrow> int \<Rightarrow> int \<Rightarrow> int \<Rightarrow> int \<Rightarrow> real list" where
  "RasterIO_Read b xoff yoff xsize ysize =
     map (\<lambda>i. band_pixels b (xoff + int i mod xsize) (yoff + int i div xsize))
       [0 ..< nat (xsize * ysize)]"

definition RasterIO_Write :: "GDALRasterBand \<Rightarrow> int \<Rightarrow> int \<Rightarrow> int \<Rightarrow> int \<Rightarrow> real list \<Rightarrow> GDALRasterBand" where
  "RasterIO_Write b xoff yoff xsize ysize buf =
     b\<lparr>band_pixels := (\<lambda>x y.
          if xoff \<le> x \<and> x < xoff + xsize \<and> yoff \<le> y \<and> y < yoff + ysize
          then buf ! nat ((y - yoff) * xsize + (x - xoff))
          else band_pixels b x y)\<rparr>"

subsection \<open>The bounded LRU map\<close>

text \<open>
  Modelled from the spec: LRUCache.h, which ManagedRaster.h includes, is not among the
  sources.  Following section 4.1 of the specification, the cache is a map of fixed
  capacity from block index to buffer, kept here in recency order (most recent first).
\<close>

record LRUCache =
  max_size :: nat
  cache_items :: "(int \<times> real list) list"

text \<open>Modelled from the spec: a new cache of capacity \<open>C\<close> is empty.\<close>

definition LRUCache_new :: "nat \<Rightarrow> LRUCache" where
  "LRUCache_new C = \<lparr>max_size = C, cache_items = []\<rparr>"

text \<open>Modelled from the spec: \<open>exists(k)\<close> is non-mutating and does not touch recency.\<close>

definition lru_exist :: "LRUCache \<Rightarrow> int \<Rightarrow> bool" where
  "lru_exist c k = (map_of (cache_items c) k \<noteq> None)"

text \<open>
  Modelled from the spec: \<open>get(k)\<close> returns the resident buffer and makes \<open>k\<close> the most
  recent key; it is undefined when \<open>k\<close> is absent.
\<close>

definition lru_get :: "LRUCache \<Rightarrow> int \<Rightarrow> error + (real list \<times> LRUCache)" where
  "lru_get c k =
     (case map_of (cache_items c) k of
        None \<Rightarrow> Inl KeyNotInCache
      | Some buf \<Rightarrow>
          Inr (buf, c\<lparr>cache_items := (k, buf) # filter (\<lambda>p. fst p \<noteq> k) (cache_items c)\<rparr>))"

text \<open>
  Modelled from the spec: \<open>put(k, buf)\<close> inserts the pair as the most recent one; if the
  map was at capacity before the insertion, the least recently used entry is removed and
  returned, otherwise nothing is returned.
\<close>

definition lru_put :: "LRUCache \<Rightarrow> int \<Rightarrow> real list \<Rightarrow> LRUCache \<times> (int \<times> real list) list" where
  "lru_put c k buf =
     (let rest = filter (\<lambda>p. fst p \<noteq> k) (cache_items c) in
      if max_size c \<le> length (cache_items c) \<and> rest \<noteq> []
      then (c\<lparr>cache_items := (k, buf) # butlast rest\<rparr>, [last rest])
      else (c\<lparr>cache_items := (k, buf) # rest\<rparr>, []))"

text \<open>
  The buffers in the cache are \<^verbatim>\<open>double*\<close>: the assignment
  \<^verbatim>\<open>lru_cache->get(k)[idx] = value\<close> writes through the pointer into the resident buffer.
\<close>

definition buffer_store :: "LRUCache \<Rightarrow> int \<Rightarrow> nat \<Rightarrow> real \<Rightarrow> LRUCache" where
  "buffer_store c k idx v =
     c\<lparr>cache_items := map (\<lambda>p. if fst p = k then (fst p, (snd p)[idx := v]) else p) (cache_items c)\<rparr>"

subsection \<open>ManagedRaster\<close>

record ManagedRaster =
  lru_cache :: LRUCache
  dirty_blocks :: "int set"
  actualBlockWidths :: "int list"
  block_xsize :: int
  block_ysize :: int
  block_xmod :: int
  block_ymod :: int
  block_xbits :: int
  block_ybits :: int
  raster_x_size :: int
  raster_y_size :: int
  block_nx :: int
  block_ny :: int
  raster_path :: string
  band_id :: int
  dataset :: GDALDataset
  band :: GDALRasterBand
  write_mode :: bool
  closed :: bool
  nodata :: "real option"
  geotransform :: "real list"

text \<open>
  In the header \<^verbatim>\<open>band\<close> points into \<^verbatim>\<open>dataset\<close>; here the field \<open>band\<close> holds the
  pixels of the band on disk, and \<open>dataset\<close> the rest of the open handle.  \<open>nodata\<close>
  combines \<^verbatim>\<open>nodata\<close> and \<^verbatim>\<open>hasNodata\<close>.
\<close>

text \<open>The test of the constructor that throws "Block size is not a power of two".\<close>

definition block_size_not_power_of_two :: "int \<Rightarrow> int \<Rightarrow> bool" where
  "block_size_not_power_of_two bxs bys =
     ((bxs AND (bxs - 1)) \<noteq> 0 \<or> (bys AND (bys - 1)) \<noteq> 0)"

text \<open>
  The constructor.  After the power-of-two test it computes \<^verbatim>\<open>log2(block_xsize)\<close> and
  divides by the block size: for a block size that is not positive the conversion of
  the logarithm to \<^verbatim>\<open>int\<close> is undefined (and the division is by zero for 0).
\<close>

definition ManagedRaster_init ::
  "(string \<rightharpoonup> GDALDataset) \<Rightarrow> string \<Rightarrow> int \<Rightarrow> bool \<Rightarrow> error + ManagedRaster" where
  "ManagedRaster_init fs path bid wmode =
     (case GDALOpen fs path GA_Update of
        None \<Rightarrow> Inl NullDereference
      | Some ds \<Rightarrow>
          let W = ds_raster_x_size ds;
              H = ds_raster_y_size ds
          in
          if bid < 1 \<or> bid > GetRasterCount ds then Inl InvalidBandId
          else
            let b = GetRasterBand ds bid;
                bxs = band_block_xsize b;
                bys = band_block_ysize b
            in
            if block_size_not_power_of_two bxs bys then Inl BlockSizeNotPowerOfTwo
            else if bxs \<le> 0 \<or> bys \<le> 0 then Inl FloatToIntUndefined
            else
              let nx = cdiv (W + bxs - 1) bxs;
                  ny = cdiv (H + bys - 1) bys
              in
              Inr \<lparr>lru_cache = LRUCache_new MANAGED_RASTER_N_BLOCKS,
                   dirty_blocks = {},
                   actualBlockWidths =
                     concat (map (\<lambda>yi. map (\<lambda>xi. fst (GetActualBlockSize W H bxs bys (int xi) (int yi)))
                                            [0 ..< nat nx])
                                 [0 ..< nat ny]),
                   block_xsize = bxs,
                   block_ysize = bys,
                   block_xmod = bxs - 1,
                   block_ymod = bys - 1,
                   block_xbits = int (log2_floor (nat bxs)),
                   block_ybits = int (log2_floor (nat bys)),
                   raster_x_size = W,
                   raster_y_size = H,
                   block_nx = nx,
                   block_ny = ny,
                   raster_path = path,
                   band_id = bid,
                   dataset = ds,
                   band = b,
                   write_mode = wmode,
                   closed = False,
                   nodata = band_nodata b,
                   geotransform = ds_geotransform ds\<rparr>)"

text \<open>
  The window of a block: offsets from the block index, sizes clipped at the right and
  bottom edges of the raster.  The header repeats this computation in
  \<^verbatim>\<open>_load_block\<close> (twice) and in \<^verbatim>\<open>close\<close>.
\<close>

definition block_window :: "ManagedRaster \<Rightarrow> int \<Rightarrow> int \<times> int \<times> int \<times> int" where
  "block_window r block_index =
     (let block_xi = cmod block_index (block_nx r);
          block_yi = cdiv block_index (block_nx r);
          xoff = push_bit (nat (block_xbits r)) block_xi;
          yoff = push_bit (nat (block_ybits r)) block_yi;
          win_xsize = (if xoff + block_xsize r > raster_x_size r
                       then block_xsize r - (xoff + block_xsize r - raster_x_size r)
                       else block_xsize r);
          win_ysize = (if yoff + block_ysize r > raster_y_size r
                       then block_ysize r - (yoff + block_ysize r - raster_y_size r)
                       else block_ysize r)
      in (xoff, yoff, win_xsize, win_ysize))"

text \<open>Writing a dirty block back and removing it from the dirty set.\<close>

definition write_back :: "ManagedRaster \<Rightarrow> int \<Rightarrow> real list \<Rightarrow> ManagedRaster" where
  "write_back r block_index double_buffer =
     (case block_window r block_index of
        (xoff, yoff, win_xsize, win_ysize) \<Rightarrow>
          r\<lparr>dirty_blocks := dirty_blocks r - {block_index},
            band := RasterIO_Write (band r) xoff yoff win_xsize win_ysize double_buffer\<rparr>)"

text \<open>The loop of \<^verbatim>\<open>_load_block\<close> over the entries that \<^verbatim>\<open>put\<close> removed.\<close>

fun flush_removed :: "ManagedRaster \<Rightarrow> (int \<times> real list) list \<Rightarrow> ManagedRaster" where
  "flush_removed r [] = r"
| "flush_removed r (p # removed_value_list) =
     flush_removed
       (if write_mode r \<and> fst p \<in> dirty_blocks r then write_back r (fst p) (snd p) else r)
       removed_value_list"

definition load_block :: "ManagedRaster \<Rightarrow> int \<Rightarrow> error + ManagedRaster" where
  "load_block r block_index =
     (if block_nx r = 0 then Inl DivisionByZero
      else
        case block_window r block_index of
          (xoff, yoff, win_xsize, win_ysize) \<Rightarrow>
            let pafScanline = RasterIO_Read (band r) xoff yoff win_xsize win_ysize;
                (c, removed_value_list) = lru_put (lru_cache r) block_index pafScanline
            in Inr (flush_removed (r\<lparr>lru_cache := c\<rparr>) removed_value_list))"

text \<open>
  \<^verbatim>\<open>set\<close> and \<^verbatim>\<open>get\<close>.  The header checks neither the coordinates nor the \<^verbatim>\<open>closed\<close>
  latch; calls after \<^verbatim>\<open>close()\<close> are undefined by the comment in \<^verbatim>\<open>close\<close>, and an
  index outside \<^verbatim>\<open>actualBlockWidths\<close> or outside the block buffer is an out-of-range
  access.
\<close>

definition block_index_of :: "ManagedRaster \<Rightarrow> int \<Rightarrow> int \<Rightarrow> int" where
  "block_index_of r xi yi =
     (let block_xi = cdiv xi (block_xsize r);
          block_yi = cdiv yi (block_ysize r)
      in block_yi * block_nx r + block_xi)"

definition pixel_idx :: "ManagedRaster \<Rightarrow> int \<Rightarrow> int \<Rightarrow> int \<Rightarrow> int" where
  "pixel_idx r block_index xi yi =
     ((yi AND block_ymod r) * (actualBlockWidths r ! nat block_index)) + (xi AND block_xmod r)"

definition ManagedRaster_set :: "ManagedRaster \<Rightarrow> int \<Rightarrow> int \<Rightarrow> real \<Rightarrow> error + ManagedRaster" where
  "ManagedRaster_set r xi yi v =
     (if closed r then Inl UseAfterClose
      else if block_xsize r = 0 \<or> block_ysize r = 0 then Inl DivisionByZero
      else
        let block_index = block_index_of r xi yi in
        case (if \<not> lru_exist (lru_cache r) block_index then load_block r block_index else Inr r) of
          Inl e \<Rightarrow> Inl e
        | Inr r1 \<Rightarrow>
            if block_index < 0 \<or> int (length (actualBlockWidths r1)) \<le> block_index
            then Inl IndexOutOfRange
            else
              let idx = pixel_idx r1 block_index xi yi in
              case lru_get (lru_cache r1) block_index of
                Inl e \<Rightarrow> Inl e
              | Inr (block, c) \<Rightarrow>
                  if idx < 0 \<or> int (length block) \<le> idx then Inl IndexOutOfRange
                  else
                    let r2 = r1\<lparr>lru_cache := buffer_store c block_index (nat idx) v\<rparr>
                    in Inr (if write_mode r2
                            then r2\<lparr>dirty_blocks := insert block_index (dirty_blocks r2)\<rparr>
                            else r2))"

definition ManagedRaster_get :: "ManagedRaster \<Rightarrow> int \<Rightarrow> int \<Rightarrow> error + (real \<times> ManagedRaster)" where
  "ManagedRaster_get r xi yi =
     (if closed r then Inl UseAfterClose
      else if block_xsize r = 0 \<or> block_ysize r = 0 then Inl DivisionByZero
      else
        let block_index = block_index_of r xi yi in
        case (if \<not> lru_exist (lru_cache r) block_index then load_block r block_index else Inr r) of
          Inl e \<Rightarrow> Inl e
        | Inr r1 \<Rightarrow>
            (case lru_get (lru_cache r1) block_index of
               Inl e \<Rightarrow> Inl e
             | Inr (block, c) \<Rightarrow>
                 if block_index < 0 \<or> int (length (actualBlockWidths r1)) \<le> block_index
                 then Inl IndexOutOfRange
                 else
                   let idx = pixel_idx r1 block_index xi yi in
                   if idx < 0 \<or> int (length block) \<le> idx then Inl IndexOutOfRange
                   else Inr (block ! nat idx, r1\<lparr>lru_cache := c\<rparr>)))"

text \<open>
  \<^verbatim>\<open>close\<close>.  In write mode every resident block that is dirty is written back, the buffers
  are released and the cache object is deleted (no entry is left).  When \<^verbatim>\<open>write_mode\<close>
  is false the buffers are released and the function returns: the cache object keeps
  its entries.
\<close>

fun close_flush :: "ManagedRaster \<Rightarrow> (int \<times> real list) list \<Rightarrow> ManagedRaster" where
  "close_flush r [] = r"
| "close_flush r (p # items) =
     close_flush (if fst p \<in> dirty_blocks r then write_back r (fst p) (snd p) else r) items"

definition ManagedRaster_close :: "ManagedRaster \<Rightarrow> ManagedRaster" where
  "ManagedRaster_close r =
     (if closed r then r
      else
        let r1 = r\<lparr>closed := True\<rparr> in
        if \<not> write_mode r1 then r1
        else
          let r2 = close_flush r1 (cache_items (lru_cache r1))
          in r2\<lparr>lru_cache := (lru_cache r2)\<lparr>cache_items := []\<rparr>\<rparr>)"

subsection \<open>Sequences of operations on one raster\<close>

datatype raster_op = Get int int | Set int int real | Close

fun run_op :: "ManagedRaster \<Rightarrow> raster_op \<Rightarrow> error + ManagedRaster" where
  "run_op r (Get xi yi) = map_sum id snd (ManagedRaster_get r xi yi)"
| "run_op r (Set xi yi v) = ManagedRaster_set r xi yi v"
| "run_op r Close = Inr (ManagedRaster_close r)"

fun run_ops :: "ManagedRaster \<Rightarrow> raster_op list \<Rightarrow> error + ManagedRaster" where
  "run_ops r [] = Inr r"
| "run_ops r (opn # ops) = (case run_op r opn of Inl e \<Rightarrow> Inl e | Inr r' \<Rightarrow> run_ops r' ops)"

subsection \<open>ManagedFlowDirRaster\<close>

text \<open>
  The implicit conversion \<^verbatim>\<open>int flow_dir_j = get(xj, yj)\<close> and \<^verbatim>\<open>static_cast<int>(v)\<close>:
  truncation towards zero, undefined when the truncated value is not an \<^verbatim>\<open>int\<close>.
\<close>

definition double_to_int :: "real \<Rightarrow> error + int" where
  "double_to_int v =
     (if - 2147483649 < v \<and> v < 2147483648
      then Inr (if 0 \<le> v then \<lfloor>v\<rfloor> else \<lceil>v\<rceil>)
      else Inl FloatToIntUndefined)"

text \<open>The loop of \<^verbatim>\<open>is_local_high_point\<close> for the multiple flow direction scheme, from \<open>n_dir\<close> on.\<close>

function is_local_high_point_MFD_from ::
  "ManagedRaster \<Rightarrow> int \<Rightarrow> int \<Rightarrow> int \<Rightarrow> error + (bool \<times> ManagedRaster)" where
  "is_local_high_point_MFD_from r xi yi n_dir =
     (if \<not> n_dir < 8 then Inr (True, r)
      else if n_dir < 0 then Inl IndexOutOfRange
      else
        let xj = xi + COL_OFFSETS ! nat n_dir;
            yj = yi + ROW_OFFSETS ! nat n_dir
        in
        if xj < 0 \<or> xj \<ge> raster_x_size r \<or> yj < 0 \<or> yj \<ge> raster_y_size r
        then is_local_high_point_MFD_from r xi yi (n_dir + 1)
        else
          case ManagedRaster_get r xj yj of
            Inl e \<Rightarrow> Inl e
          | Inr (v, r') \<Rightarrow>
              (case double_to_int v of
                 Inl e \<Rightarrow> Inl e
               | Inr flow_dir_j \<Rightarrow>
                   let flow_ji = real_of_int
                         (0xF AND drop_bit (nat (4 * (FLOW_DIR_REVERSE_DIRECTION ! nat n_dir))) flow_dir_j)
                   in
                   if flow_ji \<noteq> 0 then Inr (False, r')
                   else is_local_high_point_MFD_from r' xi yi (n_dir + 1)))"
  by pat_completeness auto
termination
  by (relation "measure (\<lambda>(r, xi, yi, n_dir). nat (8 - n_dir))") auto

definition is_local_high_point_MFD ::
  "ManagedRaster \<Rightarrow> int \<Rightarrow> int \<Rightarrow> error + (bool \<times> ManagedRaster)" where
  "is_local_high_point_MFD r xi yi = is_local_high_point_MFD_from r xi yi 0"

subsection \<open>Pixel and NeighborTuple\<close>

record NeighborTuple =
  nt_direction :: int
  nt_x :: int
  nt_y :: int
  nt_flow_proportion :: real

definition endVal :: NeighborTuple where
  "endVal = \<lparr>nt_direction = 8, nt_x = -1, nt_y = -1, nt_flow_proportion = -1\<rparr>"

record Pixel =
  px_raster :: ManagedRaster
  px_x :: int
  px_y :: int
  px_val :: int

text \<open>
  The constructor of \<^verbatim>\<open>Pixel\<close> takes the raster by value and reads the pixel through
  its parameter, after the member was copied from it.  A copy of a \<^verbatim>\<open>ManagedRaster\<close>
  shares the cache and the dataset with the original (both are pointers) and has a
  dirty set of its own: the member sees the cache and the band as the read left them,
  and keeps the dirty set it was copied with.
\<close>

definition Pixel_init :: "ManagedRaster \<Rightarrow> int \<Rightarrow> int \<Rightarrow> error + Pixel" where
  "Pixel_init r xi yi =
     (case ManagedRaster_get r xi yi of
        Inl e \<Rightarrow> Inl e
      | Inr (v, r') \<Rightarrow>
          (case double_to_int v of
             Inl e \<Rightarrow> Inl e
           | Inr i \<Rightarrow>
               Inr \<lparr>px_raster = r'\<lparr>dirty_blocks := dirty_blocks r\<rparr>,
                    px_x = xi, px_y = yi, px_val = i\<rparr>))"

subsection \<open>Neighbor iterators\<close>

text \<open>
  \<^verbatim>\<open>m_ptr\<close> is null, the address of the static \<^verbatim>\<open>endVal\<close>, or a tuple allocated by
  \<^verbatim>\<open>next\<close>.  Every \<^verbatim>\<open>next\<close> starts with \<^verbatim>\<open>delete this->m_ptr\<close>, which is undefined on the
  address of \<^verbatim>\<open>endVal\<close>.
\<close>

datatype NeighborPtr = Nullptr | EndValPtr | TuplePtr NeighborTuple

record NeighborIterator =
  it_pixel :: Pixel
  it_m_ptr :: NeighborPtr
  it_i :: int

function DownslopeNeighborIterator_MFD_next :: "NeighborIterator \<Rightarrow> error + NeighborIterator" where
  "DownslopeNeighborIterator_MFD_next it =
     (if it_m_ptr it = EndValPtr then Inl InvalidDelete
      else if it_i it = 8 then Inr (it\<lparr>it_m_ptr := EndValPtr\<rparr>)
      else if it_i it < 0 \<or> 8 < it_i it then Inl IndexOutOfRange
      else
        let xj = px_x (it_pixel it) + COL_OFFSETS ! nat (it_i it);
            yj = px_y (it_pixel it) + ROW_OFFSETS ! nat (it_i it)
        in
        if xj < 0 \<or> xj \<ge> raster_x_size (px_raster (it_pixel it)) \<or>
           yj < 0 \<or> yj \<ge> raster_y_size (px_raster (it_pixel it))
        then DownslopeNeighborIterator_MFD_next (it\<lparr>it_m_ptr := Nullptr, it_i := it_i it + 1\<rparr>)
        else
          let flow = drop_bit (nat (it_i it * 4)) (px_val (it_pixel it)) AND 0xF in
          if flow \<noteq> 0
          then Inr (it\<lparr>it_m_ptr := TuplePtr \<lparr>nt_direction = it_i it, nt_x = xj, nt_y = yj,
                                              nt_flow_proportion = real_of_int flow\<rparr>,
                       it_i := it_i it + 1\<rparr>)
          else DownslopeNeighborIterator_MFD_next (it\<lparr>it_m_ptr := Nullptr, it_i := it_i it + 1\<rparr>))"
  by pat_completeness auto
termination
  by (relation "measure (\<lambda>it. nat (8 - it_i it))") auto

definition DownslopeNeighborIterator_D8_next :: "NeighborIterator \<Rightarrow> error + NeighborIterator" where
  "DownslopeNeighborIterator_D8_next it =
     (if it_m_ptr it = EndValPtr then Inl InvalidDelete
      else if it_i it = 8 then Inr (it\<lparr>it_m_ptr := EndValPtr\<rparr>)
      else
        case table_at COL_OFFSETS (px_val (it_pixel it)) of
          Inl e \<Rightarrow> Inl e
        | Inr co \<Rightarrow>
            (case table_at ROW_OFFSETS (px_val (it_pixel it)) of
               Inl e \<Rightarrow> Inl e
             | Inr ro \<Rightarrow>
                 let xj = px_x (it_pixel it) + co;
                     yj = px_y (it_pixel it) + ro
                 in
                 if xj < 0 \<or> xj \<ge> raster_x_size (px_raster (it_pixel it)) \<or>
                    yj < 0 \<or> yj \<ge> raster_y_size (px_raster (it_pixel it))
                 then Inr (it\<lparr>it_m_ptr := EndValPtr\<rparr>)
                 else Inr (it\<lparr>it_i := 8,
                              it_m_ptr := TuplePtr \<lparr>nt_direction = px_val (it_pixel it),
                                                    nt_x = xj, nt_y = yj,
                                                    nt_flow_proportion = 1\<rparr>\<rparr>)))"

definition DownslopeNeighborNoSkipIterator_D8_next :: "NeighborIterator \<Rightarrow> error + NeighborIterator" where
  "DownslopeNeighborNoSkipIterator_D8_next it =
     (if it_m_ptr it = EndValPtr then Inl InvalidDelete
      else if it_i it = 8 then Inr (it\<lparr>it_m_ptr := EndValPtr\<rparr>)
      else
        case table_at COL_OFFSETS (px_val (it_pixel it)) of
          Inl e \<Rightarrow> Inl e
        | Inr co \<Rightarrow>
            (case table_at ROW_OFFSETS (px_val (it_pixel it)) of
               Inl e \<Rightarrow> Inl e
             | Inr ro \<Rightarrow>
                 let xj = px_x (it_pixel it) + co;
                     yj = px_y (it_pixel it) + ro
                 in Inr (it\<lparr>it_i := 8,
                            it_m_ptr := TuplePtr \<lparr>nt_direction = px_val (it_pixel it),
                                                  nt_x = xj, nt_y = yj,
                                                  nt_flow_proportion = 1\<rparr>\<rparr>)))"

text \<open>
  The division \<^verbatim>\<open>static_cast<float>(flow_ji) / static_cast<float>(flow_dir_j_sum)\<close>; a zero
  divisor is reported as an error so that its absence can be stated.
\<close>

definition float_div :: "real \<Rightarrow> real \<Rightarrow> error + real" where
  "float_div a b = (if b = 0 then Inl FloatDivisionByZero else Inr (a / b))"

text \<open>The loop that adds the eight nibbles of \<^verbatim>\<open>flow_dir_j\<close>.\<close>

definition flow_dir_sum :: "int \<Rightarrow> int" where
  "flow_dir_sum flow_dir_j =
     fold (\<lambda>idx s. s + (drop_bit (idx * 4) flow_dir_j AND 0xF)) [0 ..< 8] 0"

function UpslopeNeighborIterator_MFD_next :: "NeighborIterator \<Rightarrow> error + NeighborIterator" where
  "UpslopeNeighborIterator_MFD_next it =
     (if it_m_ptr it = EndValPtr then Inl InvalidDelete
      else if it_i it = 8 then Inr (it\<lparr>it_m_ptr := EndValPtr\<rparr>)
      else if it_i it < 0 \<or> 8 < it_i it then Inl IndexOutOfRange
      else
        let xj = px_x (it_pixel it) + COL_OFFSETS ! nat (it_i it);
            yj = px_y (it_pixel it) + ROW_OFFSETS ! nat (it_i it)
        in
        if xj < 0 \<or> xj \<ge> raster_x_size (px_raster (it_pixel it)) \<or>
           yj < 0 \<or> yj \<ge> raster_y_size (px_raster (it_pixel it))
        then UpslopeNeighborIterator_MFD_next (it\<lparr>it_m_ptr := Nullptr, it_i := it_i it + 1\<rparr>)
        else
          case ManagedRaster_get (px_raster (it_pixel it)) xj yj of
            Inl e \<Rightarrow> Inl e
          | Inr (v, r') \<Rightarrow>
              (case double_to_int v of
                 Inl e \<Rightarrow> Inl e
               | Inr flow_dir_j \<Rightarrow>
                   let flow_ji = 0xF AND
                         drop_bit (nat (4 * (FLOW_DIR_REVERSE_DIRECTION ! nat (it_i it)))) flow_dir_j;
                       p' = (it_pixel it)\<lparr>px_raster := r'\<rparr>
                   in
                   if flow_ji \<noteq> 0
                   then
                     (case float_div (real_of_int flow_ji) (real_of_int (flow_dir_sum flow_dir_j)) of
                        Inl e \<Rightarrow> Inl e
                      | Inr q \<Rightarrow>
                          Inr (it\<lparr>it_pixel := p',
                                  it_m_ptr := TuplePtr \<lparr>nt_direction = it_i it, nt_x = xj, nt_y = yj,
                                                        nt_flow_proportion = q\<rparr>,
                                  it_i := it_i it + 1\<rparr>))
                   else UpslopeNeighborIterator_MFD_next
                          (it\<lparr>it_pixel := p', it_m_ptr := Nullptr, it_i := it_i it + 1\<rparr>)))"
  by pat_completeness auto
termination
  by (relation "measure (\<lambda>it. nat (8 - it_i it))") auto

function UpslopeNeighborNoDivideIterator_MFD_next :: "NeighborIterator \<Rightarrow> error + NeighborIterator" where
  "UpslopeNeighborNoDivideIterator_MFD_next it =
     (if it_m_ptr it = EndValPtr then Inl InvalidDelete
      else if it_i it = 8 then Inr (it\<lparr>it_m_ptr := EndValPtr\<rparr>)
      else if it_i it < 0 \<or> 8 < it_i it then Inl IndexOutOfRange
      else
        let xj = px_x (it_pixel it) + COL_OFFSETS ! nat (it_i it);
            yj = px_y (it_pixel it) + ROW_OFFSETS ! nat (it_i it)
        in
        if xj < 0 \<or> xj \<ge> raster_x_size (px_raster (it_pixel it)) \<or>
           yj < 0 \<or> yj \<ge> raster_y_size (px_raster (it_pixel it))
        then UpslopeNeighborNoDivideIterator_MFD_next (it\<lparr>it_m_ptr := Nullptr, it_i := it_i it + 1\<rparr>)
        else
          case ManagedRaster_get (px_raster (it_pixel it)) xj yj of
            Inl e \<Rightarrow> Inl e
          | Inr (v, r') \<Rightarrow>
              (case double_to_int v of
                 Inl e \<Rightarrow> Inl e
               | Inr flow_dir_j \<Rightarrow>
                   let flow_ji = 0xF AND
                         drop_bit (nat (4 * (FLOW_DIR_REVERSE_DIRECTION ! nat (it_i it)))) flow_dir_j;
                       p' = (it_pixel it)\<lparr>px_raster := r'\<rparr>
                   in
                   if flow_ji \<noteq> 0
                   then Inr (it\<lparr>it_pixel := p',
                                it_m_ptr := TuplePtr \<lparr>nt_direction = it_i it, nt_x = xj, nt_y = yj,
                                                      nt_flow_proportion = real_of_int flow_ji\<rparr>,
                                it_i := it_i it + 1\<rparr>)
                   else UpslopeNeighborNoDivideIterator_MFD_next
                          (it\<lparr>it_pixel := p', it_m_ptr := Nullptr, it_i := it_i it + 1\<rparr>)))"
  by pat_completeness auto
termination
  by (relation "measure (\<lambda>it. nat (8 - it_i it))") auto

declare is_local_high_point_MFD_from.simps [simp del]
declare DownslopeNeighborIterator_MFD_next.simps [simp del]
declare UpslopeNeighborIterator_MFD_next.simps [simp del]
declare UpslopeNeighborNoDivideIterator_MFD_next.simps [simp del]

text \<open>The constructor \<^verbatim>\<open>Iterator(Pixel p)\<close>: the members' defaults, then the first \<^verbatim>\<open>next()\<close>.\<close>

definition iterator_start :: "Pixel \<Rightarrow> NeighborIterator" where
  "iterator_start p = \<lparr>it_pixel = p, it_m_ptr = Nullptr, it_i = 0\<rparr>"

definition DownslopeNeighborIterator_MFD :: "Pixel \<Rightarrow> error + NeighborIterator" where
  "DownslopeNeighborIterator_MFD p = DownslopeNeighborIterator_MFD_next (iterator_start p)"

definition DownslopeNeighborIterator_D8 :: "Pixel \<Rightarrow> error + NeighborIterator" where
  "DownslopeNeighborIterator_D8 p = DownslopeNeighborIterator_D8_next (iterator_start p)"

definition DownslopeNeighborNoSkipIterator_D8 :: "Pixel \<Rightarrow> error + NeighborIterator" where
  "DownslopeNeighborNoSkipIterator_D8 p = DownslopeNeighborNoSkipIterator_D8_next (iterator_start p)"

definition UpslopeNeighborIterator_MFD :: "Pixel \<Rightarrow> error + NeighborIterator" where
  "UpslopeNeighborIterator_MFD p = UpslopeNeighborIterator_MFD_next (iterator_start p)"

definition UpslopeNeighborNoDivideIterator_MFD :: "Pixel \<Rightarrow> error + NeighborIterator" where
  "UpslopeNeighborNoDivideIterator_MFD p = UpslopeNeighborNoDivideIterator_MFD_next (iterator_start p)"

text \<open>
  The classes \<^verbatim>\<open>DownslopeNeighbors\<close>, \<^verbatim>\<open>UpslopeNeighbors\<close> and
  \<^verbatim>\<open>UpslopeNeighborsNoDivide\<close> are ranges: \<^verbatim>\<open>begin()\<close> constructs the iterator, which
  advances once; the tuple under the iterator is emitted and the iterator advanced until
  it equals \<^verbatim>\<open>end()\<close>, the iterator on \<^verbatim>\<open>&endVal\<close>.  The functions below advance an
  iterator and collect what it emits from there on.
\<close>

function DownslopeNeighbors_MFD_from :: "NeighborIterator \<Rightarrow> error + NeighborTuple list" where
  "DownslopeNeighbors_MFD_from it =
     (case DownslopeNeighborIterator_MFD_next it of
        Inl e \<Rightarrow> Inl e
      | Inr it' \<Rightarrow>
          (case it_m_ptr it' of
             EndValPtr \<Rightarrow> Inr []
           | Nullptr \<Rightarrow> Inl NullDereference
           | TuplePtr t \<Rightarrow> map_sum id ((#) t) (DownslopeNeighbors_MFD_from it')))"
  by pat_completeness auto
termination
proof (relation "measure (\<lambda>it. nat (9 - it_i it))")
  show "wf (measure (\<lambda>it. nat (9 - it_i it)))" by simp
next
  fix it it' :: NeighborIterator and t
  assume "DownslopeNeighborIterator_MFD_next it = Inr it'" and "it_m_ptr it' = TuplePtr t"
  then have "it_i it < it_i it' \<and> it_i it' \<le> 8"
  proof (induction it rule: DownslopeNeighborIterator_MFD_next.induct)
    case (1 it)
    note IH = "1.IH"(1)[OF _ _ _ refl refl] "1.IH"(2)[OF _ _ _ refl refl _ refl]
    from "1.prems" IH show ?case
      by (subst (asm) DownslopeNeighborIterator_MFD_next.simps)
         (auto simp: Let_def split: if_splits)
  qed
  then show "(it', it) \<in> measure (\<lambda>it. nat (9 - it_i it))" by simp
qed

function UpslopeNeighbors_MFD_from :: "NeighborIterator \<Rightarrow> error + NeighborTuple list" where
  "UpslopeNeighbors_MFD_from it =
     (case UpslopeNeighborIterator_MFD_next it of
        Inl e \<Rightarrow> Inl e
      | Inr it' \<Rightarrow>
          (case it_m_ptr it' of
             EndValPtr \<Rightarrow> Inr []
           | Nullptr \<Rightarrow> Inl NullDereference
           | TuplePtr t \<Rightarrow> map_sum id ((#) t) (UpslopeNeighbors_MFD_from it')))"
  by pat_completeness auto
termination
proof (relation "measure (\<lambda>it. nat (9 - it_i it))")
  show "wf (measure (\<lambda>it. nat (9 - it_i it)))" by simp
next
  fix it it' :: NeighborIterator and t
  assume "UpslopeNeighborIterator_MFD_next it = Inr it'" and "it_m_ptr it' = TuplePtr t"
  then have "it_i it < it_i it' \<and> it_i it' \<le> 8"
  proof (induction it rule: UpslopeNeighborIterator_MFD_next.induct)
    case (1 it)
    note IH = "1.IH"(1)[OF _ _ _ refl refl] "1.IH"(2)[OF _ _ _ refl refl _ _ refl _ refl refl]
    show ?case
    proof (cases "ManagedRaster_get (px_raster (it_pixel it))
                    (px_x (it_pixel it) + COL_OFFSETS ! nat (it_i it))
                    (px_y (it_pixel it) + ROW_OFFSETS ! nat (it_i it))")
      case (Inl e)
      with "1.prems" IH(1) show ?thesis
        by (subst (asm) UpslopeNeighborIterator_MFD_next.simps)
           (auto simp: Let_def split: if_splits)
    next
      case (Inr b)
      obtain v r' where b: "b = (v, r')" by (cases b)
      show ?thesis
      proof (cases "double_to_int v")
        case (Inl e)
        with "1.prems" IH(1) Inr b show ?thesis
          by (subst (asm) UpslopeNeighborIterator_MFD_next.simps)
             (auto simp: Let_def split: if_splits)
      next
        case c: (Inr fd)
        with "1.prems" IH(1) IH(2)[OF _ _ _ _ Inr[unfolded b] c] Inr b show ?thesis
          by (subst (asm) UpslopeNeighborIterator_MFD_next.simps)
             (auto simp: Let_def float_div_def split: if_splits)
      qed
    qed
  qed
  then show "(it', it) \<in> measure (\<lambda>it. nat (9 - it_i it))" by simp
qed

function UpslopeNeighborsNoDivide_MFD_from :: "NeighborIterator \<Rightarrow> error + NeighborTuple list" where
  "UpslopeNeighborsNoDivide_MFD_from it =
     (case UpslopeNeighborNoDivideIterator_MFD_next it of
        Inl e \<Rightarrow> Inl e
      | Inr it' \<Rightarrow>
          (case it_m_ptr it' of
             EndValPtr \<Rightarrow> Inr []
           | Nullptr \<Rightarrow> Inl NullDereference
           | TuplePtr t \<Rightarrow> map_sum id ((#) t) (UpslopeNeighborsNoDivide_MFD_from it')))"
  by pat_completeness auto
termination
proof (relation "measure (\<lambda>it. nat (9 - it_i it))")
  show "wf (measure (\<lambda>it. nat (9 - it_i it)))" by simp
next
  fix it it' :: NeighborIterator and t
  assume "UpslopeNeighborNoDivideIterator_MFD_next it = Inr it'" and "it_m_ptr it' = TuplePtr t"
  then have "it_i it < it_i it' \<and> it_i it' \<le> 8"
  proof (induction it rule: UpslopeNeighborNoDivideIterator_MFD_next.induct)
    case (1 it)
    note IH = "1.IH"(1)[OF _ _ _ refl refl] "1.IH"(2)[OF _ _ _ refl refl _ _ refl _ refl refl]
    show ?case
    proof (cases "ManagedRaster_get (px_raster (it_pixel it))
                    (px_x (it_pixel it) + COL_OFFSETS ! nat (it_i it))
                    (px_y (it_pixel it) + ROW_OFFSETS ! nat (it_i it))")
      case (Inl e)
      with "1.prems" IH(1) show ?thesis
        by (subst (asm) UpslopeNeighborNoDivideIterator_MFD_next.simps)
           (auto simp: Let_def split: if_splits)
    next
      case (Inr b)
      obtain v r' where b: "b = (v, r')" by (cases b)
      show ?thesis
      proof (cases "double_to_int v")
        case (Inl e)
        with "1.prems" IH(1) Inr b show ?thesis
          by (subst (asm) UpslopeNeighborNoDivideIterator_MFD_next.simps)
             (auto simp: Let_def split: if_splits)
      next
        case c: (Inr fd)
        with "1.prems" IH(1) IH(2)[OF _ _ _ _ Inr[unfolded b] c] Inr b show ?thesis
          by (subst (asm) UpslopeNeighborNoDivideIterator_MFD_next.simps)
             (auto simp: Let_def float_div_def split: if_splits)
      qed
    qed
  qed
  then show "(it', it) \<in> measure (\<lambda>it. nat (9 - it_i it))" by simp
qed

definition DownslopeNeighbors_MFD :: "Pixel \<Rightarrow> error + NeighborTuple list" where
  "DownslopeNeighbors_MFD p = DownslopeNeighbors_MFD_from (iterator_start p)"

definition UpslopeNeighbors_MFD :: "Pixel \<Rightarrow> error + NeighborTuple list" where
  "UpslopeNeighbors_MFD p = UpslopeNeighbors_MFD_from (iterator_start p)"

definition UpslopeNeighborsNoDivide_MFD :: "Pixel \<Rightarrow> error + NeighborTuple list" where
  "UpslopeNeighborsNoDivide_MFD p = UpslopeNeighborsNoDivide_MFD_from (iterator_start p)"

declare DownslopeNeighbors_MFD_from.simps [simp del]
declare UpslopeNeighbors_MFD_from.simps [simp del]
declare UpslopeNeighborsNoDivide_MFD_from.simps [simp del]

section \<open>Notions used in the statements\<close>

text \<open>A coordinate is in bounds when no iterator skips it: the negation of the bounds test of the header.\<close>

definition in_raster :: "ManagedRaster \<Rightarrow> int \<Rightarrow> int \<Rightarrow> bool" where
  "in_raster r xj yj = (\<not> (xj < 0 \<or> xj \<ge> raster_x_size r \<or> yj < 0 \<or> yj \<ge> raster_y_size r))"

text \<open>Nibble \<open>d\<close> of a multiple flow direction value, and the sum of its eight nibbles.\<close>

definition nibble :: "int \<Rightarrow> int \<Rightarrow> int" where
  "nibble v d = drop_bit (nat (4 * d)) v AND 0xF"

definition nibble_sum :: "int \<Rightarrow> int" where
  "nibble_sum v = (\<Sum>d = 0 ..< 8. nibble v (int d))"

text \<open>
  The geometry of an open raster, as the constructor leaves it: positive raster size,
  block sizes \<open>2 ^ block_xbits\<close> and \<open>2 ^ block_ybits\<close>, the masks, the block counts and
  the table of actual block widths.
\<close>

definition geometry_ok :: "ManagedRaster \<Rightarrow> bool" where
  "geometry_ok r \<longleftrightarrow>
     \<not> closed r \<and> 0 < raster_x_size r \<and> 0 < raster_y_size r \<and>
     0 \<le> block_xbits r \<and> 0 \<le> block_ybits r \<and>
     block_xsize r = 2 ^ nat (block_xbits r) \<and> block_ysize r = 2 ^ nat (block_ybits r) \<and>
     block_xmod r = block_xsize r - 1 \<and> block_ymod r = block_ysize r - 1 \<and>
     block_nx r = cdiv (raster_x_size r + block_xsize r - 1) (block_xsize r) \<and>
     block_ny r = cdiv (raster_y_size r + block_ysize r - 1) (block_ysize r) \<and>
     actualBlockWidths r =
       concat (map (\<lambda>yi. map (\<lambda>xi. fst (GetActualBlockSize (raster_x_size r) (raster_y_size r)
                                              (block_xsize r) (block_ysize r) (int xi) (int yi)))
                              [0 ..< nat (block_nx r)])
                   [0 ..< nat (block_ny r)])"

text \<open>The members that \<^verbatim>\<open>get\<close>, \<^verbatim>\<open>set\<close> and \<^verbatim>\<open>_load_block\<close> only read.\<close>

definition geometry_of ::
  "ManagedRaster \<Rightarrow> int list \<times> int \<times> int \<times> int \<times> int \<times> int \<times> int \<times> int \<times> int \<times> int \<times> int \<times> bool \<times> bool" where
  "geometry_of r =
     (actualBlockWidths r, block_xsize r, block_ysize r, block_xmod r, block_ymod r,
      block_xbits r, block_ybits r, raster_x_size r, raster_y_size r, block_nx r, block_ny r,
      write_mode r, closed r)"

text \<open>The buffer that \<^verbatim>\<open>_load_block\<close> reads for a block.\<close>

definition block_on_disk :: "ManagedRaster \<Rightarrow> int \<Rightarrow> real list" where
  "block_on_disk r k =
     (case block_window r k of
        (xoff, yoff, win_xsize, win_ysize) \<Rightarrow> RasterIO_Read (band r) xoff yoff win_xsize win_ysize)"

text \<open>
  Every resident block has a valid index, occurs once, and its buffer has the size of
  the block's window.
\<close>

definition cache_ok :: "ManagedRaster \<Rightarrow> bool" where
  "cache_ok r \<longleftrightarrow>
     distinct (map fst (cache_items (lru_cache r))) \<and>
     (\<forall>p \<in> set (cache_items (lru_cache r)).
        0 \<le> fst p \<and> fst p < block_nx r * block_ny r \<and>
        length (snd p) = length (block_on_disk r (fst p)))"

text \<open>
  A resident block that is not marked dirty on a writable raster holds what is on disk.
  This is what makes eviction lossless.
\<close>

definition coherent :: "ManagedRaster \<Rightarrow> bool" where
  "coherent r \<longleftrightarrow>
     (\<forall>p \<in> set (cache_items (lru_cache r)).
        (write_mode r \<and> fst p \<in> dirty_blocks r) \<or> snd p = block_on_disk r (fst p))"

definition raster_ok :: "ManagedRaster \<Rightarrow> bool" where
  "raster_ok r \<longleftrightarrow> geometry_ok r \<and> cache_ok r \<and> coherent r"

text \<open>The dirty set is contained in the keys of the cache.\<close>

definition dirty_contained :: "ManagedRaster \<Rightarrow> bool" where
  "dirty_contained r \<longleftrightarrow> dirty_blocks r \<subseteq> fst ` set (cache_items (lru_cache r))"

text \<open>
  The value of a pixel as the raster holds it: in the resident buffer of its block if
  there is one, on disk otherwise.
\<close>

definition pixel_value :: "ManagedRaster \<Rightarrow> int \<Rightarrow> int \<Rightarrow> real" where
  "pixel_value r xi yi =
     (let k = block_index_of r xi yi in
      case map_of (cache_items (lru_cache r)) k of
        None \<Rightarrow> band_pixels (band r) xi yi
      | Some buf \<Rightarrow> buf ! nat (pixel_idx r k xi yi))"

text \<open>The pixel value as the flow direction code reads it: converted to \<^verbatim>\<open>int\<close>.\<close>

definition int_pixel :: "ManagedRaster \<Rightarrow> int \<Rightarrow> int \<Rightarrow> int option" where
  "int_pixel r xi yi =
     (case double_to_int (pixel_value r xi yi) of Inl e \<Rightarrow> None | Inr i \<Rightarrow> Some i)"

section \<open>Example rasters\<close>

text \<open>
  Rasters of 3 by 3 pixels in blocks of 2 by 2.  In \<open>flow_a\<close> the pixel \<open>(2, 1)\<close> holds
  \<open>0x00000014\<close>, in \<open>flow_b\<close> it holds \<open>0x00010004\<close>; the other pixels hold 0.  \<open>zero\<close>
  reports a block size of 0.
\<close>

definition example_band :: "real \<Rightarrow> GDALRasterBand" where
  "example_band v =
     \<lparr>band_block_xsize = 2, band_block_ysize = 2, band_nodata = None,
      band_pixels = (\<lambda>x y. if x = 2 \<and> y = 1 then v else 0)\<rparr>"

definition example_dataset :: "GDALRasterBand \<Rightarrow> GDALDataset" where
  "example_dataset b =
     \<lparr>ds_access = GA_ReadOnly, ds_raster_x_size = 3, ds_raster_y_size = 3,
      ds_bands = [b], ds_geotransform = [0, 1, 0, 0, 0, -1]\<rparr>"

definition example_fs :: "string \<rightharpoonup> GDALDataset" where
  "example_fs =
     [''flow_a'' \<mapsto> example_dataset (example_band 0x14),
      ''flow_b'' \<mapsto> example_dataset (example_band 0x10004),
      ''zero'' \<mapsto> example_dataset ((example_band 0)\<lparr>band_block_xsize := 0, band_block_ysize := 0\<rparr>)]"

definition example_raster :: "string \<Rightarrow> bool \<Rightarrow> ManagedRaster" where
  "example_raster path wmode =
     (case ManagedRaster_init example_fs path 1 wmode of Inr r \<Rightarrow> r)"

section \<open>The constructor\<close>

lemma log2_floor_small [simp]: "log2_floor 0 = 0" "log2_floor 1 = 0" "log2_floor 2 = 1"
  by (simp_all add: log2_floor.simps)

lemmas example_defs =
  example_fs_def GDALOpen_def example_dataset_def example_band_def
  GetRasterCount_def GetRasterBand_def block_size_not_power_of_two_def

text \<open>
  C4, as stated, fails: with \<open>write_mode = false\<close> the constructor still opens the dataset
  with \<open>GA_Update\<close>.
\<close>

theorem C4_read_only_request_opens_for_update:
  "map_sum id (\<lambda>r. (write_mode r, ds_access (dataset r)))
     (ManagedRaster_init example_fs ''flow_a'' 1 False) = Inr (False, GA_Update)"
  by (simp add: ManagedRaster_init_def example_defs Let_def)

text \<open>
  C4, amended: a raster that the constructor returns was opened with \<open>GA_Update\<close>, whatever
  \<open>write_mode\<close> was requested; the request is only recorded in the member \<open>write_mode\<close>.
\<close>

theorem C4_constructor_opens_for_update:
  assumes "ManagedRaster_init fs path bid wmode = Inr r"
  shows "ds_access (dataset r) = GA_Update \<and> write_mode r = wmode"
  using assms
  by (auto simp: ManagedRaster_init_def GDALOpen_def Let_def split: option.splits if_splits)

theorem C4_constructor_opens_for_update_witness:
  "\<exists>r. ManagedRaster_init example_fs ''flow_a'' 1 False = Inr r \<and>
       ds_access (dataset r) = GA_Update \<and> write_mode r = False"
proof -
  obtain r where r: "ManagedRaster_init example_fs ''flow_a'' 1 False = Inr r"
    by (simp add: ManagedRaster_init_def example_defs Let_def)
  from C4_constructor_opens_for_update [OF r] r show ?thesis by blast
qed

text \<open>
  C6 at a block size of 0: the power-of-two test does not reject it, and no
  \<open>BlockSizeNotPowerOfTwo\<close> is raised; the constructor goes on to \<^verbatim>\<open>log2(0)\<close> and a
  division by the block size.
\<close>

theorem C6_zero_block_size_passes_test:
  "\<not> block_size_not_power_of_two 0 0 \<and>
   ManagedRaster_init example_fs ''zero'' 1 False = Inl FloatToIntUndefined"
  by (simp add: ManagedRaster_init_def example_defs Let_def)

theorem C6_zero_block_size_not_rejected:
  "ManagedRaster_init example_fs ''zero'' 1 False \<noteq> Inl BlockSizeNotPowerOfTwo"
  using C6_zero_block_size_passes_test by simp

section \<open>Single flow direction: values outside 0..7\<close>

text \<open>
  C5 fails on the code: the first step of both single flow direction downslope iterators
  reads \<^verbatim>\<open>COL_OFFSETS[pixel.val]\<close> before any test, which is outside the table for
  every value that is not in 0..7.
\<close>

theorem C5_D8_downslope_reads_outside_table:
  assumes "px_val p < 0 \<or> 7 < px_val p"
  shows "DownslopeNeighborIterator_D8 p = Inl IndexOutOfRange \<and>
         DownslopeNeighborNoSkipIterator_D8 p = Inl IndexOutOfRange"
  using assms
  by (auto simp: DownslopeNeighborIterator_D8_def DownslopeNeighborNoSkipIterator_D8_def
        DownslopeNeighborIterator_D8_next_def DownslopeNeighborNoSkipIterator_D8_next_def
        iterator_start_def table_at_def COL_OFFSETS_def)

theorem C5_D8_downslope_reads_outside_table_witness:
  "DownslopeNeighborIterator_D8
     \<lparr>px_raster = example_raster ''flow_a'' False, px_x = 2, px_y = 1, px_val = 0x14\<rparr>
     = Inl IndexOutOfRange \<and>
   DownslopeNeighborNoSkipIterator_D8
     \<lparr>px_raster = example_raster ''flow_a'' False, px_x = 2, px_y = 1, px_val = 0x14\<rparr>
     = Inl IndexOutOfRange"
  using C5_D8_downslope_reads_outside_table
    [of "\<lparr>px_raster = example_raster ''flow_a'' False, px_x = 2, px_y = 1, px_val = 0x14\<rparr>"]
  by simp

section \<open>The division in the upslope iterator\<close>

lemma get_not_float_div: "ManagedRaster_get r xi yi \<noteq> Inl FloatDivisionByZero"
  by (auto simp: ManagedRaster_get_def load_block_def lru_get_def Let_def
           split: if_splits sum.splits prod.splits option.splits)

lemma double_to_int_not_float_div: "double_to_int v \<noteq> Inl FloatDivisionByZero"
  by (simp add: double_to_int_def)

lemma flow_dir_sum_unfold:
  "flow_dir_sum v =
     (drop_bit 0 v AND 15) + (drop_bit 4 v AND 15) + (drop_bit 8 v AND 15) +
     (drop_bit 12 v AND 15) + (drop_bit 16 v AND 15) + (drop_bit 20 v AND 15) +
     (drop_bit 24 v AND 15) + (drop_bit 28 v AND 15)"
  by (simp add: flow_dir_sum_def upt_conv_Cons del: drop_bit_0)

lemma direction_cases:
  "0 \<le> (d::int) \<Longrightarrow> d < 8 \<Longrightarrow>
   d = 0 \<or> d = 1 \<or> d = 2 \<or> d = 3 \<or> d = 4 \<or> d = 5 \<or> d = 6 \<or> d = 7"
  by arith

lemma flow_ji_le_sum:
  assumes "0 \<le> d" "d < 8"
  shows "(15 AND drop_bit (nat (4 * (FLOW_DIR_REVERSE_DIRECTION ! nat d))) v) \<le> flow_dir_sum v"
  using direction_cases [OF assms] unfolding flow_dir_sum_unfold
  by (elim disjE) (simp_all add: FLOW_DIR_REVERSE_DIRECTION_def and.commute del: drop_bit_0)

lemma flow_ji_pos:
  "(15 AND drop_bit k (v::int)) \<noteq> 0 \<Longrightarrow> 1 \<le> (15 AND drop_bit k v)"
proof -
  assume "(15 AND drop_bit k v) \<noteq> 0"
  moreover have "0 \<le> (15 AND drop_bit k v)" by simp
  ultimately show ?thesis by linarith
qed

lemma upslope_next_no_float_div:
  "UpslopeNeighborIterator_MFD_next it \<noteq> Inl FloatDivisionByZero"
proof (induction it rule: UpslopeNeighborIterator_MFD_next.induct)
  case (1 it)
  note IH = "1.IH"(1)[OF _ _ _ refl refl] "1.IH"(2)[OF _ _ _ refl refl _ _ refl _ refl refl]
  show ?case
  proof (cases "ManagedRaster_get (px_raster (it_pixel it))
                    (px_x (it_pixel it) + COL_OFFSETS ! nat (it_i it))
                    (px_y (it_pixel it) + ROW_OFFSETS ! nat (it_i it))")
    case (Inl e)
    with IH(1) get_not_float_div show ?thesis
      by (subst UpslopeNeighborIterator_MFD_next.simps)
         (auto simp: Let_def split: if_splits)
  next
    case (Inr b)
    obtain v r' where b: "b = (v, r')" by (cases b)
    show ?thesis
    proof (cases "double_to_int v")
      case (Inl e)
      with IH(1) Inr b double_to_int_not_float_div show ?thesis
        by (subst UpslopeNeighborIterator_MFD_next.simps)
           (auto simp: Let_def split: if_splits)
    next
      case c: (Inr fd)
      have "0 \<le> it_i it \<Longrightarrow> it_i it < 8 \<Longrightarrow>
            15 AND drop_bit (nat (4 * FLOW_DIR_REVERSE_DIRECTION ! nat (it_i it))) fd \<noteq> 0 \<Longrightarrow>
            flow_dir_sum fd \<noteq> 0"
        using flow_ji_le_sum [of "it_i it" fd]
          flow_ji_pos [of "nat (4 * FLOW_DIR_REVERSE_DIRECTION ! nat (it_i it))" fd]
        by linarith
      with IH(1) IH(2)[OF _ _ _ _ Inr[unfolded b] c] Inr b c show ?thesis
        by (subst UpslopeNeighborIterator_MFD_next.simps)
           (auto simp: Let_def float_div_def split: if_splits)
    qed
  qed
qed

text \<open>
  C9: no step of the multiple flow direction upslope iterator divides by zero; and
  whenever the back-pointing nibble \<open>flow_ji\<close> of a value is not zero, it is at least 1 and
  at most the sum of the eight nibbles, which is the divisor.
\<close>

theorem C9_upslope_division_defined:
  "UpslopeNeighborIterator_MFD_next it \<noteq> Inl FloatDivisionByZero \<and>
   (0 \<le> d \<and> d < 8 \<and>
    (15 AND drop_bit (nat (4 * (FLOW_DIR_REVERSE_DIRECTION ! nat d))) v) \<noteq> 0 \<longrightarrow>
      1 \<le> (15 AND drop_bit (nat (4 * (FLOW_DIR_REVERSE_DIRECTION ! nat d))) v) \<and>
      (15 AND drop_bit (nat (4 * (FLOW_DIR_REVERSE_DIRECTION ! nat d))) v) \<le> flow_dir_sum v \<and>
      1 \<le> flow_dir_sum v)"
  using upslope_next_no_float_div [of it] flow_ji_le_sum [of d v]
    flow_ji_pos [of "nat (4 * (FLOW_DIR_REVERSE_DIRECTION ! nat d))" v]
  by auto

theorem C9_upslope_division_defined_witness:
  "UpslopeNeighborIterator_MFD_next
     (iterator_start \<lparr>px_raster = example_raster ''flow_b'' False, px_x = 1, px_y = 1, px_val = 0\<rparr>)
     \<noteq> Inl FloatDivisionByZero \<and>
   (15 AND drop_bit (nat (4 * (FLOW_DIR_REVERSE_DIRECTION ! nat 0))) (0x10004::int)) \<noteq> 0 \<and>
   1 \<le> (15 AND drop_bit (nat (4 * (FLOW_DIR_REVERSE_DIRECTION ! nat 0))) (0x10004::int)) \<and>
   (15 AND drop_bit (nat (4 * (FLOW_DIR_REVERSE_DIRECTION ! nat 0))) (0x10004::int))
      \<le> flow_dir_sum 0x10004 \<and>
   1 \<le> flow_dir_sum 0x10004"
proof -
  have nz: "(15 AND drop_bit (nat (4 * (FLOW_DIR_REVERSE_DIRECTION ! nat 0))) (0x10004::int)) \<noteq> 0"
    by (simp add: FLOW_DIR_REVERSE_DIRECTION_def)
  from nz C9_upslope_division_defined
    [of "iterator_start \<lparr>px_raster = example_raster ''flow_b'' False, px_x = 1, px_y = 1, px_val = 0\<rparr>"
        0 "0x10004"]
  show ?thesis by simp
qed

section \<open>Integer operations and the constructor's geometry\<close>

lemma cdiv_nonneg: "0 \<le> a \<Longrightarrow> 0 < b \<Longrightarrow> cdiv a b = a div b"
  by (cases "a = 0") (simp_all add: cdiv_def)

lemma cmod_nonneg: "0 \<le> a \<Longrightarrow> 0 < b \<Longrightarrow> cmod a b = a mod b"
  by (simp add: cmod_def cdiv_nonneg minus_mult_div_eq_mod)

lemma and_pow2_minus_1: "(x::int) AND (2 ^ n - 1) = x mod 2 ^ n"
  by (simp add: take_bit_eq_mod [symmetric] take_bit_eq_mask mask_eq_exp_minus_1)

lemma pow2_and_zero:
  "0 < (x::int) \<Longrightarrow> x AND (x - 1) = 0 \<Longrightarrow> x = 2 ^ log2_floor (nat x)"
proof (induction "nat x" arbitrary: x rule: less_induct)
  case less
  show ?case
  proof (cases "x = 1")
    case True
    then show ?thesis by (simp add: log2_floor.simps)
  next
    case False
    with less.prems have x2: "2 \<le> x" by simp
    have ev: "even x"
    proof (rule ccontr)
      assume "odd x"
      then obtain y where y: "x = 2 * y + 1" by (auto elim: oddE)
      with x2 have "0 < y" by simp
      have "x AND (x - 1) = 2 * y"
        unfolding y by (simp add: and_int_rec [of "2 * y + 1" "2 * y"])
      with less.prems \<open>0 < y\<close> show False by simp
    qed
    then obtain y where y: "x = 2 * y" by (auto elim: evenE)
    with x2 have ypos: "0 < y" by simp
    have h: "(2 * y - 1) div 2 = y - 1" by simp
    have "x AND (x - 1) = 2 * (y AND (y - 1))"
      unfolding y by (subst and_int_rec) (simp add: h)
    with less.prems have "y AND (y - 1) = 0" by simp
    moreover have "nat y < nat x" using y ypos by simp
    ultimately have "y = 2 ^ log2_floor (nat y)" using less.hyps ypos by blast
    moreover have "log2_floor (nat x) = Suc (log2_floor (nat y))"
      using y ypos by (subst log2_floor.simps) (simp add: nat_mult_distrib)
    ultimately show ?thesis using y by simp
  qed
qed

lemma concat_rows_nth:
  "\<forall>l \<in> set xss. length l = n \<Longrightarrow> j < length xss \<Longrightarrow> i < n \<Longrightarrow>
   concat xss ! (j * n + i) = xss ! j ! i"
proof (induction xss arbitrary: j)
  case Nil
  then show ?case by simp
next
  case (Cons l xss)
  show ?case
  proof (cases j)
    case 0
    with Cons.prems show ?thesis by (simp add: nth_append)
  next
    case (Suc j')
    with Cons.prems have "concat xss ! (j' * n + i) = xss ! j' ! i"
      by (intro Cons.IH) auto
    with Suc Cons.prems show ?thesis by (simp add: nth_append)
  qed
qed

lemma concat_rows_length:
  "\<forall>l \<in> set xss. length l = n \<Longrightarrow> length (concat xss) = length xss * n"
  by (induction xss) auto

lemma init_geometry_ok:
  assumes "ManagedRaster_init fs path bid wmode = Inr r"
    and "0 < raster_x_size r" "0 < raster_y_size r"
  shows "geometry_ok r"
proof -
  from assms obtain ds where ds: "GDALOpen fs path GA_Update = Some ds"
    by (auto simp: ManagedRaster_init_def split: option.splits)
  define bxs where "bxs = band_block_xsize (GetRasterBand ds bid)"
  define bys where "bys = band_block_ysize (GetRasterBand ds bid)"
  from assms ds have np: "\<not> block_size_not_power_of_two bxs bys"
    and pos: "0 < bxs" "0 < bys"
    by (auto simp: ManagedRaster_init_def Let_def bxs_def bys_def split: if_splits)
  from np pos have px: "2 ^ log2_floor (nat bxs) = bxs"
    and py: "2 ^ log2_floor (nat bys) = bys"
    by (auto simp: block_size_not_power_of_two_def dest: pow2_and_zero)
  from assms ds np pos have f:
    "closed r = False" "block_xsize r = bxs" "block_ysize r = bys"
    "block_xmod r = bxs - 1" "block_ymod r = bys - 1"
    "block_xbits r = int (log2_floor (nat bxs))" "block_ybits r = int (log2_floor (nat bys))"
    "block_nx r = cdiv (raster_x_size r + bxs - 1) bxs"
    "block_ny r = cdiv (raster_y_size r + bys - 1) bys"
    "actualBlockWidths r =
       concat (map (\<lambda>yi. map (\<lambda>xi. fst (GetActualBlockSize (raster_x_size r) (raster_y_size r)
                                              bxs bys (int xi) (int yi)))
                              [0 ..< nat (block_nx r)])
                   [0 ..< nat (block_ny r)])"
    by (auto simp: ManagedRaster_init_def Let_def bxs_def bys_def split: if_splits)
  show ?thesis
    unfolding geometry_ok_def f(1-7) by (simp add: px py f(8-10) assms(2,3))
qed

lemma init_cache_empty:
  assumes "ManagedRaster_init fs path bid wmode = Inr r"
  shows "cache_items (lru_cache r) = [] \<and> dirty_blocks r = {} \<and> write_mode r = wmode \<and>
         max_size (lru_cache r) = 64"
  using assms
  by (auto simp: ManagedRaster_init_def Let_def LRUCache_new_def MANAGED_RASTER_N_BLOCKS_def
           split: option.splits if_splits)


section \<open>Block geometry\<close>

lemma div_lt_blocks:
  assumes "0 < (B::int)" "0 \<le> x" "x < W"
  shows "x div B < (W + B - 1) div B"
proof -
  have "x div B \<le> (W - 1) div B" using assms by (intro zdiv_mono1) auto
  also have "(W - 1) div B < (W - 1) div B + 1" by simp
  also have "(W - 1) div B + 1 = (W - 1 + B) div B" using assms by simp
  finally show ?thesis by (simp add: algebra_simps)
qed

lemma geometry_nx:
  assumes "geometry_ok r"
  shows "block_nx r = (raster_x_size r + block_xsize r - 1) div block_xsize r"
    and "block_ny r = (raster_y_size r + block_ysize r - 1) div block_ysize r"
    and "0 < block_xsize r" and "0 < block_ysize r"
    and "0 < block_nx r" and "0 < block_ny r"
proof -
  from assms have W: "0 < raster_x_size r" and H: "0 < raster_y_size r"
    and bxe: "block_xsize r = 2 ^ nat (block_xbits r)" and bye: "block_ysize r = 2 ^ nat (block_ybits r)"
    and nx: "block_nx r = cdiv (raster_x_size r + block_xsize r - 1) (block_xsize r)"
    and ny: "block_ny r = cdiv (raster_y_size r + block_ysize r - 1) (block_ysize r)"
    by (simp_all add: geometry_ok_def)
  show px: "0 < block_xsize r" and py: "0 < block_ysize r" by (simp_all add: bxe bye)
  show nx': "block_nx r = (raster_x_size r + block_xsize r - 1) div block_xsize r"
    using W px by (simp add: nx cdiv_nonneg)
  show ny': "block_ny r = (raster_y_size r + block_ysize r - 1) div block_ysize r"
    using H py by (simp add: ny cdiv_nonneg)
  show "0 < block_nx r"
    using div_lt_blocks [of "block_xsize r" 0 "raster_x_size r"] px W by (simp add: nx')
  show "0 < block_ny r"
    using div_lt_blocks [of "block_ysize r" 0 "raster_y_size r"] py H by (simp add: ny')
qed

lemma block_lt_imp_start_lt:
  assumes "0 < (B::int)" "bx < (W + B - 1) div B"
  shows "bx * B < W"
proof -
  have "bx + 1 \<le> (W + B - 1) div B" using assms by simp
  then have "(bx + 1) * B \<le> ((W + B - 1) div B) * B" using assms by (intro mult_right_mono) auto
  also have "\<dots> \<le> W + B - 1"
  proof -
    have "(W + B - 1) div B * B + (W + B - 1) mod B = W + B - 1" by simp
    moreover have "0 \<le> (W + B - 1) mod B" using assms by simp
    ultimately show ?thesis by linarith
  qed
  finally show ?thesis by (simp add: algebra_simps)
qed

lemma block_decomp:
  assumes "0 < (nx::int)" "0 \<le> k" "k < nx * ny"
  shows "0 \<le> k mod nx" "k mod nx < nx" "0 \<le> k div nx" "k div nx < ny" "k div nx * nx + k mod nx = k"
proof -
  show m0: "0 \<le> k mod nx" and "k mod nx < nx" using assms by simp_all
  show "0 \<le> k div nx" using assms by (simp add: pos_imp_zdiv_nonneg_iff)
  show e: "k div nx * nx + k mod nx = k" by simp
  show "k div nx < ny"
  proof (rule ccontr)
    assume "\<not> k div nx < ny"
    then have "ny * nx \<le> k div nx * nx" using assms by (intro mult_right_mono) auto
    with e m0 have "ny * nx \<le> k" by linarith
    with assms show False by (simp add: mult.commute)
  qed
qed

lemma block_compose:
  assumes "0 \<le> bx" "bx < (nx::int)" "0 \<le> by" "by < ny"
  shows "0 \<le> by * nx + bx" "by * nx + bx < nx * ny" "(by * nx + bx) div nx = by" "(by * nx + bx) mod nx = bx"
proof -
  show "0 \<le> by * nx + bx" using assms by simp
  have "by * nx \<le> (ny - 1) * nx" using assms by (intro mult_right_mono) auto
  with assms show "by * nx + bx < nx * ny" by (simp add: algebra_simps)
  show "(by * nx + bx) div nx = by" using assms by simp
  show "(by * nx + bx) mod nx = bx" using assms by simp
qed

text \<open>The window of a block with a valid index, by quotient and remainder.\<close>

definition win_of :: "ManagedRaster \<Rightarrow> int \<Rightarrow> int \<times> int \<times> int \<times> int" where
  "win_of r k =
     (let bx = k mod block_nx r; by = k div block_nx r in
      (bx * block_xsize r, by * block_ysize r,
       min (block_xsize r) (raster_x_size r - bx * block_xsize r),
       min (block_ysize r) (raster_y_size r - by * block_ysize r)))"

lemma block_window_valid:
  assumes g: "geometry_ok r" and k: "0 \<le> k" "k < block_nx r * block_ny r"
  shows "block_window r k = win_of r k"
proof -
  note gn = geometry_nx [OF g]
  from g have bxe: "block_xsize r = 2 ^ nat (block_xbits r)" and bye: "block_ysize r = 2 ^ nat (block_ybits r)"
    by (simp_all add: geometry_ok_def)
  have cm: "cmod k (block_nx r) = k mod block_nx r" "cdiv k (block_nx r) = k div block_nx r"
    using k gn(5) by (simp_all add: cmod_nonneg cdiv_nonneg)
  show ?thesis
    unfolding block_window_def win_of_def cm Let_def push_bit_eq_mult bxe [symmetric] bye [symmetric]
    by (auto simp: min_def)
qed

lemma win_of_bounds:
  assumes g: "geometry_ok r" and k: "0 \<le> k" "k < block_nx r * block_ny r"
    and w: "win_of r k = (xoff, yoff, wx, wy)"
  shows "0 \<le> xoff" "0 \<le> yoff" "0 < wx" "0 < wy" "wx \<le> block_xsize r" "wy \<le> block_ysize r"
    "xoff + wx \<le> raster_x_size r" "yoff + wy \<le> raster_y_size r"
    "xoff = (k mod block_nx r) * block_xsize r" "yoff = (k div block_nx r) * block_ysize r"
proof -
  note gn = geometry_nx [OF g]
  note d = block_decomp [OF gn(5) k]
  have sx: "(k mod block_nx r) * block_xsize r < raster_x_size r"
    using block_lt_imp_start_lt [OF gn(3), of "k mod block_nx r" "raster_x_size r"] d(2) gn(1) by simp
  have sy: "(k div block_nx r) * block_ysize r < raster_y_size r"
    using block_lt_imp_start_lt [OF gn(4), of "k div block_nx r" "raster_y_size r"] d(4) gn(2) by simp
  from w show "xoff = (k mod block_nx r) * block_xsize r" "yoff = (k div block_nx r) * block_ysize r"
    by (simp_all add: win_of_def Let_def)
  from w d gn sx sy show "0 \<le> xoff" "0 \<le> yoff" "0 < wx" "0 < wy" "wx \<le> block_xsize r" "wy \<le> block_ysize r"
    "xoff + wx \<le> raster_x_size r" "yoff + wy \<le> raster_y_size r"
    by (auto simp: win_of_def Let_def min_def)
qed

lemma in_raster_iff: "in_raster r x y \<longleftrightarrow> 0 \<le> x \<and> x < raster_x_size r \<and> 0 \<le> y \<and> y < raster_y_size r"
  by (auto simp: in_raster_def)

lemma pixel_block:
  assumes g: "geometry_ok r" and p: "in_raster r x y"
  shows "0 \<le> block_index_of r x y" "block_index_of r x y < block_nx r * block_ny r"
    "block_index_of r x y mod block_nx r = x div block_xsize r"
    "block_index_of r x y div block_nx r = y div block_ysize r"
proof -
  note gn = geometry_nx [OF g]
  from p have xy: "0 \<le> x" "x < raster_x_size r" "0 \<le> y" "y < raster_y_size r"
    by (simp_all add: in_raster_iff)
  have bi: "block_index_of r x y = (y div block_ysize r) * block_nx r + x div block_xsize r"
    using xy gn by (simp add: block_index_of_def Let_def cdiv_nonneg)
  have bx: "0 \<le> x div block_xsize r" "x div block_xsize r < block_nx r"
    using xy gn div_lt_blocks [OF gn(3) xy(1,2)] by (simp_all add: pos_imp_zdiv_nonneg_iff)
  have by': "0 \<le> y div block_ysize r" "y div block_ysize r < block_ny r"
    using xy gn div_lt_blocks [OF gn(4) xy(3,4)] by (simp_all add: pos_imp_zdiv_nonneg_iff)
  note c = block_compose [OF bx by']
  show "0 \<le> block_index_of r x y" "block_index_of r x y < block_nx r * block_ny r"
    "block_index_of r x y mod block_nx r = x div block_xsize r"
    "block_index_of r x y div block_nx r = y div block_ysize r"
    unfolding bi using c by simp_all
qed

lemma abw_nth:
  assumes g: "geometry_ok r" and k: "0 \<le> k" "k < block_nx r * block_ny r"
  shows "nat k < length (actualBlockWidths r)"
    and "actualBlockWidths r ! nat k = fst (snd (snd (win_of r k)))"
proof -
  note gn = geometry_nx [OF g]
  note d = block_decomp [OF gn(5) k]
  let ?f = "\<lambda>yi xi. fst (GetActualBlockSize (raster_x_size r) (raster_y_size r)
                            (block_xsize r) (block_ysize r) (int xi) (int yi))"
  let ?rows = "map (\<lambda>yi. map (?f yi) [0 ..< nat (block_nx r)]) [0 ..< nat (block_ny r)]"
  from g have abw: "actualBlockWidths r = concat ?rows" by (simp add: geometry_ok_def)
  have len: "\<forall>l \<in> set ?rows. length l = nat (block_nx r)" by auto
  have nk: "nat k = nat (k div block_nx r) * nat (block_nx r) + nat (k mod block_nx r)"
    using d gn(5) by (metis nat_add_distrib nat_mult_distrib mult_nonneg_nonneg less_imp_le)
  have j: "nat (k div block_nx r) < length ?rows" using d by simp
  have i: "nat (k mod block_nx r) < nat (block_nx r)" using d by simp
  have "length (actualBlockWidths r) = nat (block_ny r) * nat (block_nx r)"
    unfolding abw using concat_rows_length [OF len] by simp
  moreover have "nat k < nat (block_ny r) * nat (block_nx r)"
    using k gn by (simp add: nat_mult_distrib [symmetric] mult.commute nat_less_iff)
  ultimately show "nat k < length (actualBlockWidths r)" by simp
  have "actualBlockWidths r ! nat k = ?rows ! nat (k div block_nx r) ! nat (k mod block_nx r)"
    unfolding abw nk using concat_rows_nth [OF len j i] by simp
  also have "\<dots> = ?f (nat (k div block_nx r)) (nat (k mod block_nx r))"
    using j i by simp
  also have "\<dots> = fst (snd (snd (win_of r k)))"
    using d by (auto simp: GetActualBlockSize_def win_of_def Let_def min_def)
  finally show "actualBlockWidths r ! nat k = fst (snd (snd (win_of r k)))" .
qed

lemma pixel_in_window:
  assumes g: "geometry_ok r" and p: "in_raster r x y"
    and w: "win_of r (block_index_of r x y) = (xoff, yoff, wx, wy)"
  shows "xoff \<le> x" "x < xoff + wx" "yoff \<le> y" "y < yoff + wy"
    "pixel_idx r (block_index_of r x y) x y = (y - yoff) * wx + (x - xoff)"
proof -
  note gn = geometry_nx [OF g]
  note pb = pixel_block [OF g p]
  from p have xy: "0 \<le> x" "x < raster_x_size r" "0 \<le> y" "y < raster_y_size r"
    by (simp_all add: in_raster_iff)
  from w pb have xo: "xoff = (x div block_xsize r) * block_xsize r"
    and yo: "yoff = (y div block_ysize r) * block_ysize r"
    and wxe: "wx = min (block_xsize r) (raster_x_size r - xoff)"
    and wye: "wy = min (block_ysize r) (raster_y_size r - yoff)"
    by (auto simp: win_of_def Let_def)
  have mx: "x - xoff = x mod block_xsize r" unfolding xo by (simp add: minus_div_mult_eq_mod)
  have my: "y - yoff = y mod block_ysize r" unfolding yo by (simp add: minus_div_mult_eq_mod)
  have bx: "0 \<le> x mod block_xsize r" "x mod block_xsize r < block_xsize r" using gn by simp_all
  have by': "0 \<le> y mod block_ysize r" "y mod block_ysize r < block_ysize r" using gn by simp_all
  show "xoff \<le> x" "x < xoff + wx" "yoff \<le> y" "y < yoff + wy"
    using mx my bx by' xy unfolding wxe wye by (auto simp: min_def)
  from g have masks: "block_xmod r = 2 ^ nat (block_xbits r) - 1" "block_ymod r = 2 ^ nat (block_ybits r) - 1"
    and sz: "block_xsize r = 2 ^ nat (block_xbits r)" "block_ysize r = 2 ^ nat (block_ybits r)"
    by (simp_all add: geometry_ok_def)
  have "actualBlockWidths r ! nat (block_index_of r x y) = wx"
    using abw_nth(2) [OF g pb(1,2)] w by simp
  then show "pixel_idx r (block_index_of r x y) x y = (y - yoff) * wx + (x - xoff)"
    unfolding pixel_idx_def masks and_pow2_minus_1 mx my sz by simp
qed

lemma window_pixel_block:
  assumes g: "geometry_ok r" and k: "0 \<le> k" "k < block_nx r * block_ny r"
    and w: "win_of r k = (xoff, yoff, wx, wy)"
    and x: "xoff \<le> x" "x < xoff + wx" and y: "yoff \<le> y" "y < yoff + wy"
  shows "in_raster r x y" "block_index_of r x y = k"
proof -
  note gn = geometry_nx [OF g]
  note d = block_decomp [OF gn(5) k]
  note wb = win_of_bounds [OF g k w]
  show ir: "in_raster r x y" using wb x y by (simp add: in_raster_iff)
  have "x div block_xsize r = k mod block_nx r"
  proof -
    have "x = (k mod block_nx r) * block_xsize r + (x - xoff)" using wb(9) by simp
    moreover have "0 \<le> x - xoff" "x - xoff < block_xsize r" using x wb(5) by simp_all
    ultimately show ?thesis using gn(3)
      by (metis add.commute div_mult_self1 div_pos_pos_trivial add.right_neutral less_irrefl mult.commute)
  qed
  moreover have "y div block_ysize r = k div block_nx r"
  proof -
    have "y = (k div block_nx r) * block_ysize r + (y - yoff)" using wb(10) by simp
    moreover have "0 \<le> y - yoff" "y - yoff < block_ysize r" using y wb(6) by simp_all
    ultimately show ?thesis using gn(4)
      by (metis add.commute div_mult_self1 div_pos_pos_trivial add.right_neutral less_irrefl mult.commute)
  qed
  ultimately have e: "block_index_of r x y mod block_nx r = k mod block_nx r"
    "block_index_of r x y div block_nx r = k div block_nx r"
    using pixel_block [OF g ir] by simp_all
  have "block_index_of r x y =
          block_index_of r x y div block_nx r * block_nx r + block_index_of r x y mod block_nx r"
    by simp
  also have "\<dots> = k div block_nx r * block_nx r + k mod block_nx r" unfolding e ..
  also have "\<dots> = k" by simp
  finally show "block_index_of r x y = k" .
qed

section \<open>Windows of the band\<close>

lemma RasterIO_Read_length [simp]:
  "length (RasterIO_Read b xoff yoff wx wy) = nat (wx * wy)"
  by (simp add: RasterIO_Read_def)

lemma window_index:
  assumes "0 < (wx::int)" "0 \<le> dx" "dx < wx" "0 \<le> dy" "dy < wy"
  shows "0 \<le> dy * wx + dx" "dy * wx + dx < wx * wy"
    "(dy * wx + dx) mod wx = dx" "(dy * wx + dx) div wx = dy"
proof -
  show "0 \<le> dy * wx + dx" using assms by simp
  have "dy * wx \<le> (wy - 1) * wx" using assms by (intro mult_right_mono) auto
  with assms show "dy * wx + dx < wx * wy" by (simp add: algebra_simps)
  show "(dy * wx + dx) mod wx = dx" "(dy * wx + dx) div wx = dy" using assms by simp_all
qed

lemma window_coords:
  assumes "0 < (wx::int)" "i < nat (wx * wy)"
  shows "0 \<le> int i mod wx" "int i mod wx < wx" "0 \<le> int i div wx" "int i div wx < wy"
    "(int i div wx) * wx + int i mod wx = int i"
proof -
  have i: "0 \<le> int i" "int i < wx * wy" using assms by simp_all
  from block_decomp [OF assms(1) i]
  show "0 \<le> int i mod wx" "int i mod wx < wx" "0 \<le> int i div wx" "int i div wx < wy"
    "(int i div wx) * wx + int i mod wx = int i" by simp_all
qed

lemma RasterIO_Read_nth:
  assumes "0 \<le> dx" "dx < wx" "0 \<le> dy" "dy < wy"
  shows "nat (dy * wx + dx) < nat (wx * wy)"
    and "RasterIO_Read b xoff yoff wx wy ! nat (dy * wx + dx) = band_pixels b (xoff + dx) (yoff + dy)"
proof -
  from assms have wx: "0 < wx" by simp
  note wi = window_index [OF wx assms]
  show l: "nat (dy * wx + dx) < nat (wx * wy)" using wi by simp
  then show "RasterIO_Read b xoff yoff wx wy ! nat (dy * wx + dx) = band_pixels b (xoff + dx) (yoff + dy)"
    using wi by (simp add: RasterIO_Read_def)
qed

lemma RasterIO_Read_cong:
  assumes "0 < wx"
    and "\<And>x y. xoff \<le> x \<Longrightarrow> x < xoff + wx \<Longrightarrow> yoff \<le> y \<Longrightarrow> y < yoff + wy \<Longrightarrow>
            band_pixels b1 x y = band_pixels b2 x y"
  shows "RasterIO_Read b1 xoff yoff wx wy = RasterIO_Read b2 xoff yoff wx wy"
proof (rule nth_equalityI)
  show "length (RasterIO_Read b1 xoff yoff wx wy) = length (RasterIO_Read b2 xoff yoff wx wy)" by simp
next
  fix i assume "i < length (RasterIO_Read b1 xoff yoff wx wy)"
  then have i: "i < nat (wx * wy)" by simp
  note wc = window_coords [OF assms(1) i]
  from i wc assms(2) [of "xoff + int i mod wx" "yoff + int i div wx"]
  show "RasterIO_Read b1 xoff yoff wx wy ! i = RasterIO_Read b2 xoff yoff wx wy ! i"
    by (simp add: RasterIO_Read_def)
qed

lemma RasterIO_Write_Read:
  assumes "0 < wx" "length buf = nat (wx * wy)"
  shows "RasterIO_Read (RasterIO_Write b xoff yoff wx wy buf) xoff yoff wx wy = buf"
proof (rule nth_equalityI)
  show "length (RasterIO_Read (RasterIO_Write b xoff yoff wx wy buf) xoff yoff wx wy) = length buf"
    using assms by simp
next
  fix i assume "i < length (RasterIO_Read (RasterIO_Write b xoff yoff wx wy buf) xoff yoff wx wy)"
  then have i: "i < nat (wx * wy)" by simp
  note wc = window_coords [OF assms(1) i]
  from i wc show "RasterIO_Read (RasterIO_Write b xoff yoff wx wy buf) xoff yoff wx wy ! i = buf ! i"
    by (simp add: RasterIO_Read_def RasterIO_Write_def)
qed

lemma RasterIO_Write_outside:
  "\<not> (xoff \<le> x \<and> x < xoff + wx \<and> yoff \<le> y \<and> y < yoff + wy) \<Longrightarrow>
   band_pixels (RasterIO_Write b xoff yoff wx wy buf) x y = band_pixels b x y"
  by (auto simp: RasterIO_Write_def)

section \<open>Blocks on disk\<close>

lemma block_on_disk_valid:
  assumes "geometry_ok r" "0 \<le> k" "k < block_nx r * block_ny r" "win_of r k = (xoff, yoff, wx, wy)"
  shows "block_on_disk r k = RasterIO_Read (band r) xoff yoff wx wy"
  using assms by (simp add: block_on_disk_def block_window_valid)

lemma geometry_of_eq:
  assumes "geometry_of r' = geometry_of r"
  shows "block_window r' = block_window r" "block_index_of r' = block_index_of r"
    "pixel_idx r' = pixel_idx r" "in_raster r' = in_raster r" "geometry_ok r' = geometry_ok r"
    "win_of r' = win_of r" "block_nx r' = block_nx r" "block_ny r' = block_ny r"
    "write_mode r' = write_mode r" "closed r' = closed r"
    "actualBlockWidths r' = actualBlockWidths r"
    "block_xsize r' = block_xsize r" "block_ysize r' = block_ysize r"
    "raster_x_size r' = raster_x_size r" "raster_y_size r' = raster_y_size r"
  using assms
  by (auto simp: geometry_of_def block_window_def block_index_of_def pixel_idx_def
        in_raster_def geometry_ok_def win_of_def fun_eq_iff Let_def)

lemma block_on_disk_length:
  assumes "geometry_of r' = geometry_of r"
  shows "length (block_on_disk r' k) = length (block_on_disk r k)"
  by (simp add: block_on_disk_def geometry_of_eq(1) [OF assms] split: prod.splits)

lemma disk_pixel:
  assumes g: "geometry_ok r" and p: "in_raster r x y"
  shows "0 \<le> pixel_idx r (block_index_of r x y) x y"
    and "nat (pixel_idx r (block_index_of r x y) x y) < length (block_on_disk r (block_index_of r x y))"
    and "block_on_disk r (block_index_of r x y) ! nat (pixel_idx r (block_index_of r x y) x y)
           = band_pixels (band r) x y"
proof -
  let ?k = "block_index_of r x y"
  obtain xoff yoff wx wy where w: "win_of r ?k = (xoff, yoff, wx, wy)" by (cases "win_of r ?k")
  note pb = pixel_block [OF g p]
  note pw = pixel_in_window [OF g p w]
  note bd = block_on_disk_valid [OF g pb(1,2) w]
  have d: "0 \<le> x - xoff" "x - xoff < wx" "0 \<le> y - yoff" "y - yoff < wy" using pw by simp_all
  note rn = RasterIO_Read_nth [OF d]
  from d have wxp: "0 < wx" by simp
  show "0 \<le> pixel_idx r ?k x y" unfolding pw(5) using window_index(1) [OF wxp d] .
  show "nat (pixel_idx r ?k x y) < length (block_on_disk r ?k)"
    unfolding pw(5) bd using rn(1) by simp
  show "block_on_disk r ?k ! nat (pixel_idx r ?k x y) = band_pixels (band r) x y"
    unfolding pw(5) bd using rn(2) [of "band r" xoff yoff] by simp
qed

section \<open>The cache as a map\<close>

definition cache_map :: "ManagedRaster \<Rightarrow> int \<rightharpoonup> real list" where
  "cache_map r = map_of (cache_items (lru_cache r))"

definition cache_keys_distinct :: "ManagedRaster \<Rightarrow> bool" where
  "cache_keys_distinct r = distinct (map fst (cache_items (lru_cache r)))"

text \<open>The content of a block as the raster holds it: the resident buffer, or the block on disk.\<close>

definition block_content :: "ManagedRaster \<Rightarrow> int \<Rightarrow> real list" where
  "block_content r k = (case cache_map r k of None \<Rightarrow> block_on_disk r k | Some buf \<Rightarrow> buf)"

lemma lru_exist_map: "lru_exist (lru_cache r) k \<longleftrightarrow> cache_map r k \<noteq> None"
  by (simp add: lru_exist_def cache_map_def)

lemma in_items_iff:
  "distinct (map fst items) \<Longrightarrow> (k, buf) \<in> set items \<longleftrightarrow> map_of items k = Some buf"
  by simp

lemma cache_ok_map:
  "cache_ok r \<longleftrightarrow>
     cache_keys_distinct r \<and>
     (\<forall>k buf. cache_map r k = Some buf \<longrightarrow>
        0 \<le> k \<and> k < block_nx r * block_ny r \<and> length buf = length (block_on_disk r k))"
  unfolding cache_ok_def cache_keys_distinct_def cache_map_def
  by (simp add: Ball_def in_items_iff [symmetric] cong: conj_cong)

lemma coherent_map:
  "cache_keys_distinct r \<Longrightarrow>
   coherent r \<longleftrightarrow>
     (\<forall>k buf. cache_map r k = Some buf \<longrightarrow>
        (write_mode r \<and> k \<in> dirty_blocks r) \<or> buf = block_on_disk r k)"
  unfolding coherent_def cache_keys_distinct_def cache_map_def
  by (simp add: Ball_def in_items_iff [symmetric])

lemma dirty_contained_map:
  "dirty_contained r \<longleftrightarrow> (\<forall>k \<in> dirty_blocks r. cache_map r k \<noteq> None)"
  unfolding dirty_contained_def cache_map_def
  by (auto simp: map_of_eq_None_iff)

lemma map_of_butlast:
  assumes "distinct (map fst (xs @ [(k, b)]))"
  shows "map_of xs = (map_of (xs @ [(k, b)]))(k := None)"
proof
  fix j
  from assms have "k \<notin> fst ` set xs" by auto
  then have "map_of xs k = None" by (simp add: map_of_eq_None_iff)
  then show "map_of xs j = ((map_of (xs @ [(k, b)]))(k := None)) j"
    by (auto simp: map_of_append map_add_def split: option.splits)
qed

lemma filter_absent_key:
  "map_of items k = None \<Longrightarrow> filter (\<lambda>p. fst p \<noteq> k) items = items"
  by (induction items) (auto split: if_splits)

lemma lru_put_map:
  assumes d: "distinct (map fst (cache_items c))" and nk: "map_of (cache_items c) k = None"
    and put: "lru_put c k buf = (c', removed)"
  shows "distinct (map fst (cache_items c'))" "max_size c' = max_size c"
    and "(removed = [] \<and> map_of (cache_items c') = (map_of (cache_items c))(k \<mapsto> buf)) \<or>
         (\<exists>k' b'. removed = [(k', b')] \<and> k' \<noteq> k \<and> map_of (cache_items c) k' = Some b' \<and>
            map_of (cache_items c') = ((map_of (cache_items c))(k' := None))(k \<mapsto> buf))"
proof -
  let ?items = "cache_items c"
  note f = filter_absent_key [OF nk]
  from nk have kn: "k \<notin> fst ` set ?items" by (simp add: map_of_eq_None_iff)
  show "max_size c' = max_size c" using put by (auto simp: lru_put_def Let_def split: if_splits)
  have "k \<notin> set (butlast (map fst ?items))" using kn by (auto dest: in_set_butlastD)
  then show "distinct (map fst (cache_items c'))"
    using put d kn unfolding lru_put_def Let_def f
    by (auto simp: map_butlast distinct_butlast split: if_splits)
  show "(removed = [] \<and> map_of (cache_items c') = (map_of ?items)(k \<mapsto> buf)) \<or>
         (\<exists>k' b'. removed = [(k', b')] \<and> k' \<noteq> k \<and> map_of ?items k' = Some b' \<and>
            map_of (cache_items c') = ((map_of ?items)(k' := None))(k \<mapsto> buf))"
  proof (cases "max_size c \<le> length ?items \<and> ?items \<noteq> []")
    case False
    with put show ?thesis unfolding lru_put_def Let_def f by auto
  next
    case True
    obtain k' b' where l: "last ?items = (k', b')" by (cases "last ?items")
    with True have sp: "?items = butlast ?items @ [(k', b')]" by (metis append_butlast_last_id)
    from d sp have d': "distinct (map fst (butlast ?items @ [(k', b')]))" by simp
    have mb: "map_of (butlast ?items) = (map_of ?items)(k' := None)"
      using map_of_butlast [OF d'] sp by simp
    have in': "(k', b') \<in> set ?items" using sp by (metis in_set_conv_decomp)
    then have "map_of ?items k' = Some b'" using d by simp
    moreover have "k' \<noteq> k" using in' kn by force
    moreover from put True l have "removed = [(k', b')]"
      "cache_items c' = (k, buf) # butlast ?items"
      unfolding lru_put_def Let_def f by auto
    ultimately show ?thesis using mb by auto
  qed
qed

lemma map_of_filter_key:
  "map_of (filter (\<lambda>p. fst p \<noteq> k) xs) j = (if j = k then None else map_of xs j)"
  by (induction xs) auto

lemma lru_get_map:
  assumes d: "distinct (map fst (cache_items c))" and k: "map_of (cache_items c) k = Some buf"
  obtains c' where "lru_get c k = Inr (buf, c')" "distinct (map fst (cache_items c'))"
    "map_of (cache_items c') = map_of (cache_items c)" "max_size c' = max_size c"
proof -
  let ?c' = "c\<lparr>cache_items := (k, buf) # filter (\<lambda>p. fst p \<noteq> k) (cache_items c)\<rparr>"
  have 1: "lru_get c k = Inr (buf, ?c')" using k by (simp add: lru_get_def)
  have 2: "distinct (map fst (cache_items ?c'))" using d by (auto simp: distinct_map_filter)
  have 3: "map_of (cache_items ?c') = map_of (cache_items c)"
    using k by (auto simp: fun_eq_iff map_of_filter_key)
  show thesis using that [OF 1 2 3] by simp
qed

lemma buffer_store_map:
  assumes k: "map_of (cache_items c) k = Some buf"
  shows "map_of (cache_items (buffer_store c k idx v)) = (map_of (cache_items c))(k \<mapsto> buf[idx := v])"
    and "map fst (cache_items (buffer_store c k idx v)) = map fst (cache_items c)"
    and "max_size (buffer_store c k idx v) = max_size c"
proof -
  have "map_of (map (\<lambda>p. if fst p = k then (fst p, (snd p)[idx := v]) else p) xs) j
          = (if j = k then map_option (\<lambda>b. b[idx := v]) (map_of xs j) else map_of xs j)" for xs j
    by (induction xs) auto
  with k show "map_of (cache_items (buffer_store c k idx v)) = (map_of (cache_items c))(k \<mapsto> buf[idx := v])"
    by (auto simp: buffer_store_def fun_eq_iff)
  show "map fst (cache_items (buffer_store c k idx v)) = map fst (cache_items c)"
    by (simp add: buffer_store_def comp_def if_distrib cong: if_cong)
  show "max_size (buffer_store c k idx v) = max_size c" by (simp add: buffer_store_def)
qed

section \<open>Loading a block\<close>

lemma block_on_disk_cong:
  assumes "geometry_of r' = geometry_of r" "band r' = band r"
  shows "block_on_disk r' = block_on_disk r"
  by (simp add: block_on_disk_def fun_eq_iff geometry_of_eq(1) [OF assms(1)] assms(2))

lemma write_back_fields:
  "geometry_of (write_back r k buf) = geometry_of r"
  "lru_cache (write_back r k buf) = lru_cache r"
  "dirty_blocks (write_back r k buf) = dirty_blocks r - {k}"
  "cache_map (write_back r k buf) = cache_map r"
  by (simp_all add: write_back_def geometry_of_def cache_map_def split: prod.splits)

lemma write_back_band_cong:
  assumes "geometry_of r' = geometry_of r" "band r' = band r"
  shows "band (write_back r' k buf) = band (write_back r k buf)"
  by (simp add: write_back_def geometry_of_eq(1) [OF assms(1)] assms(2) split: prod.splits)

lemma block_on_disk_write_back:
  assumes g: "geometry_ok r" and k': "0 \<le> k'" "k' < block_nx r * block_ny r"
    and len: "length buf = length (block_on_disk r k')"
    and k: "0 \<le> k" "k < block_nx r * block_ny r"
  shows "block_on_disk (write_back r k' buf) k = (if k = k' then buf else block_on_disk r k)"
proof -
  obtain xo' yo' wx' wy' where w': "win_of r k' = (xo', yo', wx', wy')" by (cases "win_of r k'")
  obtain xo yo wx wy where w: "win_of r k = (xo, yo, wx, wy)" by (cases "win_of r k")
  note wb' = win_of_bounds [OF g k' w']
  note wb = win_of_bounds [OF g k w]
  let ?r' = "write_back r k' buf"
  have go: "geometry_of ?r' = geometry_of r" by (rule write_back_fields)
  then have g': "geometry_ok ?r'" using g by (simp add: geometry_of_eq(5) [OF go])
  have band': "band ?r' = RasterIO_Write (band r) xo' yo' wx' wy' buf"
    using w' by (simp add: write_back_def block_window_valid [OF g k'])
  have bd: "block_on_disk ?r' k = RasterIO_Read (band ?r') xo yo wx wy"
    using block_on_disk_valid [OF g', of k xo yo wx wy] k w by (simp add: geometry_of_eq [OF go])
  show ?thesis
  proof (cases "k = k'")
    case True
    with w w' have e: "xo = xo'" "yo = yo'" "wx = wx'" "wy = wy'" by simp_all
    have "length buf = nat (wx' * wy')"
      using len block_on_disk_valid [OF g k' w'] by simp
    with True show ?thesis unfolding bd band' e
      by (simp add: RasterIO_Write_Read [OF wb'(3)])
  next
    case False
    have "RasterIO_Read (band ?r') xo yo wx wy = RasterIO_Read (band r) xo yo wx wy"
    proof (rule RasterIO_Read_cong [OF wb(3)])
      fix x y assume xy: "xo \<le> x" "x < xo + wx" "yo \<le> y" "y < yo + wy"
      have "block_index_of r x y = k" using window_pixel_block(2) [OF g k w xy] .
      then have "\<not> (xo' \<le> x \<and> x < xo' + wx' \<and> yo' \<le> y \<and> y < yo' + wy')"
        using window_pixel_block(2) [OF g k' w', of x y] False by auto
      then show "band_pixels (band ?r') x y = band_pixels (band r) x y"
        unfolding band' by (rule RasterIO_Write_outside)
    qed
    with False show ?thesis unfolding bd using block_on_disk_valid [OF g k w] by simp
  qed
qed

lemma flush_removed_cases:
  "flush_removed r [] = r"
  "flush_removed r [(k', b')] = (if write_mode r \<and> k' \<in> dirty_blocks r then write_back r k' b' else r)"
  by simp_all

lemma load_block_spec:
  assumes g: "geometry_ok r" and d: "cache_keys_distinct r" and nk: "cache_map r k = None"
  obtains r' where "load_block r k = Inr r'" "geometry_of r' = geometry_of r" "cache_keys_distinct r'"
    "max_size (lru_cache r') = max_size (lru_cache r)"
    "(cache_map r' = (cache_map r)(k \<mapsto> block_on_disk r k) \<and> band r' = band r \<and>
        dirty_blocks r' = dirty_blocks r) \<or>
     (\<exists>k' b'. k' \<noteq> k \<and> cache_map r k' = Some b' \<and>
        cache_map r' = ((cache_map r)(k' := None))(k \<mapsto> block_on_disk r k) \<and>
        (if write_mode r \<and> k' \<in> dirty_blocks r
         then band r' = band (write_back r k' b') \<and> dirty_blocks r' = dirty_blocks r - {k'}
         else band r' = band r \<and> dirty_blocks r' = dirty_blocks r))"
proof -
  note gn = geometry_nx [OF g]
  obtain c' removed where put: "lru_put (lru_cache r) k (block_on_disk r k) = (c', removed)"
    by (cases "lru_put (lru_cache r) k (block_on_disk r k)")
  let ?r1 = "r\<lparr>lru_cache := c'\<rparr>"
  have lb: "load_block r k = Inr (flush_removed ?r1 removed)"
    using gn(5) put by (simp add: load_block_def block_on_disk_def split: prod.splits)
  from d have d': "distinct (map fst (cache_items (lru_cache r)))" by (simp add: cache_keys_distinct_def)
  from nk have nk': "map_of (cache_items (lru_cache r)) k = None" by (simp add: cache_map_def)
  note pm = lru_put_map [OF d' nk' put]
  have g1: "geometry_of ?r1 = geometry_of r" "band ?r1 = band r" "dirty_blocks ?r1 = dirty_blocks r"
    "cache_map ?r1 = map_of (cache_items c')" "write_mode ?r1 = write_mode r"
    by (simp_all add: geometry_of_def cache_map_def)
  from pm(3) show thesis
  proof (elim disjE conjE exE)
    assume r: "removed = []" and m: "map_of (cache_items c') = (map_of (cache_items (lru_cache r)))(k \<mapsto> block_on_disk r k)"
    show thesis
    proof (rule that [of ?r1])
      show "load_block r k = Inr ?r1" using lb r by simp
      show "geometry_of ?r1 = geometry_of r" by (rule g1)
      show "cache_keys_distinct ?r1" using pm(1) by (simp add: cache_keys_distinct_def)
      show "max_size (lru_cache ?r1) = max_size (lru_cache r)" using pm(2) by simp
      show "(cache_map ?r1 = (cache_map r)(k \<mapsto> block_on_disk r k) \<and> band ?r1 = band r \<and>
        dirty_blocks ?r1 = dirty_blocks r) \<or>
     (\<exists>k' b'. k' \<noteq> k \<and> cache_map r k' = Some b' \<and>
        cache_map ?r1 = ((cache_map r)(k' := None))(k \<mapsto> block_on_disk r k) \<and>
        (if write_mode r \<and> k' \<in> dirty_blocks r
         then band ?r1 = band (write_back r k' b') \<and> dirty_blocks ?r1 = dirty_blocks r - {k'}
         else band ?r1 = band r \<and> dirty_blocks ?r1 = dirty_blocks r))"
        using m by (simp add: cache_map_def)
    qed
  next
    fix k' b'
    assume r: "removed = [(k', b')]" and ne: "k' \<noteq> k"
      and old: "map_of (cache_items (lru_cache r)) k' = Some b'"
      and m: "map_of (cache_items c') = ((map_of (cache_items (lru_cache r)))(k' := None))(k \<mapsto> block_on_disk r k)"
    let ?r2 = "flush_removed ?r1 removed"
    have r2: "?r2 = (if write_mode r \<and> k' \<in> dirty_blocks r then write_back ?r1 k' b' else ?r1)"
      unfolding r flush_removed_cases by simp
    show thesis
    proof (rule that [of ?r2])
      show "load_block r k = Inr ?r2" by (rule lb)
      show "geometry_of ?r2 = geometry_of r" unfolding r2 using g1(1) by (simp add: write_back_fields)
      show "cache_keys_distinct ?r2" unfolding r2 using pm(1)
        by (simp add: cache_keys_distinct_def write_back_fields)
      show "max_size (lru_cache ?r2) = max_size (lru_cache r)" unfolding r2 using pm(2)
        by (simp add: write_back_fields)
      have "cache_map ?r2 = ((cache_map r)(k' := None))(k \<mapsto> block_on_disk r k)"
        unfolding r2 using m by (simp add: write_back_fields g1(4)) (simp add: cache_map_def)
      moreover have "if write_mode r \<and> k' \<in> dirty_blocks r
         then band ?r2 = band (write_back r k' b') \<and> dirty_blocks ?r2 = dirty_blocks r - {k'}
         else band ?r2 = band r \<and> dirty_blocks ?r2 = dirty_blocks r"
        unfolding r2 using write_back_band_cong [OF g1(1,2)]
        by (simp add: write_back_fields)
      ultimately show "(cache_map ?r2 = (cache_map r)(k \<mapsto> block_on_disk r k) \<and> band ?r2 = band r \<and>
        dirty_blocks ?r2 = dirty_blocks r) \<or>
     (\<exists>k' b'. k' \<noteq> k \<and> cache_map r k' = Some b' \<and>
        cache_map ?r2 = ((cache_map r)(k' := None))(k \<mapsto> block_on_disk r k) \<and>
        (if write_mode r \<and> k' \<in> dirty_blocks r
         then band ?r2 = band (write_back r k' b') \<and> dirty_blocks ?r2 = dirty_blocks r - {k'}
         else band ?r2 = band r \<and> dirty_blocks ?r2 = dirty_blocks r))"
        using ne old by (intro disjI2 exI [of _ k'] exI [of _ b']) (simp add: cache_map_def)
    qed
  qed
qed

definition valid_block :: "ManagedRaster \<Rightarrow> int \<Rightarrow> bool" where
  "valid_block r k \<longleftrightarrow> 0 \<le> k \<and> k < block_nx r * block_ny r"

lemma valid_block_cong:
  assumes "geometry_of r' = geometry_of r"
  shows "valid_block r' = valid_block r"
  by (simp add: valid_block_def fun_eq_iff geometry_of_eq(7,8) [OF assms])

lemma load_block_ok:
  assumes g: "geometry_ok r" and c: "cache_ok r" and k: "valid_block r k" and nk: "cache_map r k = None"
  obtains r' where "load_block r k = Inr r'" "geometry_of r' = geometry_of r" "cache_ok r'"
    "cache_map r' k = Some (block_on_disk r k)"
    "dirty_blocks r' \<subseteq> dirty_blocks r"
    "\<not> write_mode r \<Longrightarrow> band r' = band r \<and> dirty_blocks r' = dirty_blocks r"
    "coherent r \<Longrightarrow> coherent r' \<and> (\<forall>j. valid_block r j \<longrightarrow> block_content r' j = block_content r j)"
    "dirty_contained r \<Longrightarrow> write_mode r \<or> dirty_blocks r = {} \<Longrightarrow> dirty_contained r'"
    "max_size (lru_cache r') = max_size (lru_cache r)"
proof -
  from c have d: "cache_keys_distinct r"
    and cm: "\<And>j buf. cache_map r j = Some buf \<Longrightarrow> valid_block r j \<and> length buf = length (block_on_disk r j)"
    by (simp_all add: cache_ok_map valid_block_def)
  obtain r' where lb: "load_block r k = Inr r'" and go: "geometry_of r' = geometry_of r"
    and d': "cache_keys_distinct r'" and ms: "max_size (lru_cache r') = max_size (lru_cache r)"
    and cases: "(cache_map r' = (cache_map r)(k \<mapsto> block_on_disk r k) \<and> band r' = band r \<and>
        dirty_blocks r' = dirty_blocks r) \<or>
     (\<exists>k' b'. k' \<noteq> k \<and> cache_map r k' = Some b' \<and>
        cache_map r' = ((cache_map r)(k' := None))(k \<mapsto> block_on_disk r k) \<and>
        (if write_mode r \<and> k' \<in> dirty_blocks r
         then band r' = band (write_back r k' b') \<and> dirty_blocks r' = dirty_blocks r - {k'}
         else band r' = band r \<and> dirty_blocks r' = dirty_blocks r))"
    by (rule load_block_spec [OF g d nk])
  note len = block_on_disk_length [OF go]
  note vb = valid_block_cong [OF go]
  note wm = geometry_of_eq(9) [OF go]
  have nxy: "block_nx r' = block_nx r" "block_ny r' = block_ny r" by (rule geometry_of_eq [OF go])+
  have co_iff: "coherent r \<longleftrightarrow> (\<forall>k buf. cache_map r k = Some buf \<longrightarrow>
        (write_mode r \<and> k \<in> dirty_blocks r) \<or> buf = block_on_disk r k)"
    by (rule coherent_map [OF d])
  have co_iff': "coherent r' \<longleftrightarrow> (\<forall>k buf. cache_map r' k = Some buf \<longrightarrow>
        (write_mode r \<and> k \<in> dirty_blocks r') \<or> buf = block_on_disk r' k)"
    using coherent_map [OF d'] by (simp add: wm)
  have cok_iff': "cache_ok r' \<longleftrightarrow> (\<forall>k buf. cache_map r' k = Some buf \<longrightarrow>
        valid_block r k \<and> length buf = length (block_on_disk r k))"
    using d' by (simp add: cache_ok_map len nxy valid_block_def)
  from cases show thesis
  proof (elim disjE conjE exE)
    assume m: "cache_map r' = (cache_map r)(k \<mapsto> block_on_disk r k)" and b: "band r' = band r"
      and di: "dirty_blocks r' = dirty_blocks r"
    have bod: "block_on_disk r' = block_on_disk r" by (rule block_on_disk_cong [OF go b])
    show thesis
    proof (rule that [OF lb go _ _ _ _ _ _ ms])
      show "cache_ok r'" unfolding cok_iff' m using cm k by auto
      show "cache_map r' k = Some (block_on_disk r k)" by (simp add: m)
      show "dirty_blocks r' \<subseteq> dirty_blocks r" by (simp add: di)
      show "band r' = band r \<and> dirty_blocks r' = dirty_blocks r" by (simp add: b di)
      show "coherent r' \<and> (\<forall>j. valid_block r j \<longrightarrow> block_content r' j = block_content r j)" if "coherent r"
        using that nk unfolding co_iff co_iff' m di bod block_content_def by auto
      show "dirty_contained r'" if "dirty_contained r"
        using that unfolding dirty_contained_map m di by auto
    qed
  next
    fix k' b'
    assume ne: "k' \<noteq> k" and old: "cache_map r k' = Some b'"
      and m: "cache_map r' = ((cache_map r)(k' := None))(k \<mapsto> block_on_disk r k)"
      and e: "if write_mode r \<and> k' \<in> dirty_blocks r
         then band r' = band (write_back r k' b') \<and> dirty_blocks r' = dirty_blocks r - {k'}
         else band r' = band r \<and> dirty_blocks r' = dirty_blocks r"
    from cm [OF old] have vk': "valid_block r k'" and lk': "length b' = length (block_on_disk r k')" by simp_all
    show thesis
    proof (cases "write_mode r \<and> k' \<in> dirty_blocks r")
      case True
      with e have b: "band r' = band (write_back r k' b')" and di: "dirty_blocks r' = dirty_blocks r - {k'}"
        by simp_all
      have "block_on_disk r' = block_on_disk (write_back r k' b')"
        by (rule block_on_disk_cong) (simp_all add: go write_back_fields b)
      then have bod: "\<And>j. valid_block r j \<Longrightarrow> block_on_disk r' j = (if j = k' then b' else block_on_disk r j)"
        using block_on_disk_write_back [OF g _ _ lk'] vk' by (simp add: valid_block_def)
      show thesis
      proof (rule that [OF lb go _ _ _ _ _ _ ms])
        show "cache_ok r'" unfolding cok_iff' m using cm k by auto
        show "cache_map r' k = Some (block_on_disk r k)" by (simp add: m)
        show "dirty_blocks r' \<subseteq> dirty_blocks r" by (auto simp: di)
        show "band r' = band r \<and> dirty_blocks r' = dirty_blocks r" if "\<not> write_mode r"
          using that True by simp
        show "coherent r' \<and> (\<forall>j. valid_block r j \<longrightarrow> block_content r' j = block_content r j)" if co: "coherent r"
        proof (intro conjI allI impI)
          show "coherent r'" unfolding co_iff'
          proof (intro allI impI)
            fix j buf assume j: "cache_map r' j = Some buf"
            show "write_mode r \<and> j \<in> dirty_blocks r' \<or> buf = block_on_disk r' j"
            proof (cases "j = k")
              case True
              with j m have "buf = block_on_disk r k" by simp
              with True bod [OF k] ne show ?thesis by simp
            next
              case False
              with j m have jk': "j \<noteq> k'" and jo: "cache_map r j = Some buf" by (auto split: if_splits)
              from cm [OF jo] have "valid_block r j" by simp
              with bod jk' have "block_on_disk r' j = block_on_disk r j" by simp
              with co [unfolded co_iff] jo jk' di show ?thesis by auto
            qed
          qed
        next
          fix j assume vj: "valid_block r j"
          show "block_content r' j = block_content r j"
            using bod [OF vj] nk old ne unfolding block_content_def m
            by (auto split: option.splits)
        qed
        show "dirty_contained r'" if "dirty_contained r"
          using that ne unfolding dirty_contained_map m di by auto
      qed
    next
      case False
      with e have b: "band r' = band r" and di: "dirty_blocks r' = dirty_blocks r" by simp_all
      have bod: "block_on_disk r' = block_on_disk r" by (rule block_on_disk_cong [OF go b])
      show thesis
      proof (rule that [OF lb go _ _ _ _ _ _ ms])
        show "cache_ok r'" unfolding cok_iff' m using cm k by auto
        show "cache_map r' k = Some (block_on_disk r k)" by (simp add: m)
        show "dirty_blocks r' \<subseteq> dirty_blocks r" by (simp add: di)
        show "band r' = band r \<and> dirty_blocks r' = dirty_blocks r" by (simp add: b di)
        show "coherent r' \<and> (\<forall>j. valid_block r j \<longrightarrow> block_content r' j = block_content r j)" if co: "coherent r"
        proof -
          from co [unfolded co_iff] old False have "b' = block_on_disk r k'" by auto
          with co nk old ne show ?thesis
            unfolding co_iff co_iff' m di bod block_content_def by auto
        qed
        show "dirty_contained r'" if "dirty_contained r" "write_mode r \<or> dirty_blocks r = {}"
          using that False ne unfolding dirty_contained_map m di by auto
      qed
    qed
  qed
qed

section \<open>get and set\<close>

lemma same_view:
  assumes go: "geometry_of r' = geometry_of r" and b: "band r' = band r"
    and m: "cache_map r' = cache_map r"
    and d': "cache_keys_distinct r'" and d: "cache_keys_distinct r"
  shows "cache_ok r' = cache_ok r" "block_content r' = block_content r"
    "dirty_blocks r' = dirty_blocks r \<Longrightarrow> coherent r' = coherent r"
    "dirty_blocks r' = dirty_blocks r \<Longrightarrow> dirty_contained r' = dirty_contained r"
proof -
  note bod = block_on_disk_cong [OF go b]
  note nxy = geometry_of_eq(7,8,9) [OF go]
  show "cache_ok r' = cache_ok r" by (simp add: cache_ok_map m d d' bod nxy)
  show "block_content r' = block_content r" by (simp add: block_content_def fun_eq_iff m bod split: option.splits)
  show "coherent r' = coherent r" if "dirty_blocks r' = dirty_blocks r"
    by (simp add: coherent_map [OF d] coherent_map [OF d'] m bod nxy that)
  show "dirty_contained r' = dirty_contained r" if "dirty_blocks r' = dirty_blocks r"
    by (simp add: dirty_contained_map m that)
qed

lemma pixel_value_content:
  assumes g: "geometry_ok r" and p: "in_raster r x y"
  shows "pixel_value r x y = block_content r (block_index_of r x y) ! nat (pixel_idx r (block_index_of r x y) x y)"
  using disk_pixel(3) [OF g p]
  by (simp add: pixel_value_def block_content_def cache_map_def Let_def split: option.splits)

lemma pixel_valid_block:
  "geometry_ok r \<Longrightarrow> in_raster r x y \<Longrightarrow> valid_block r (block_index_of r x y)"
  using pixel_block(1,2) by (simp add: valid_block_def)

lemma ensure_loaded:
  assumes g: "geometry_ok r" and c: "cache_ok r" and k: "valid_block r k"
  obtains r1 where
    "(if \<not> lru_exist (lru_cache r) k then load_block r k else Inr r) = Inr r1"
    "geometry_of r1 = geometry_of r" "cache_ok r1"
    "cache_map r1 k = Some (block_content r k)"
    "dirty_blocks r1 \<subseteq> dirty_blocks r"
    "\<not> write_mode r \<Longrightarrow> band r1 = band r \<and> dirty_blocks r1 = dirty_blocks r"
    "coherent r \<Longrightarrow> coherent r1 \<and> (\<forall>j. valid_block r j \<longrightarrow> block_content r1 j = block_content r j)"
    "dirty_contained r \<Longrightarrow> write_mode r \<or> dirty_blocks r = {} \<Longrightarrow> dirty_contained r1"
    "max_size (lru_cache r1) = max_size (lru_cache r)"
proof (cases "cache_map r k")
  case None
  then have bc: "block_content r k = block_on_disk r k" by (simp add: block_content_def)
  from None have ne: "\<not> lru_exist (lru_cache r) k" by (simp add: lru_exist_map)
  from load_block_ok [OF g c k None] obtain r' where r':
    "load_block r k = Inr r'" "geometry_of r' = geometry_of r" "cache_ok r'"
    "cache_map r' k = Some (block_on_disk r k)"
    "dirty_blocks r' \<subseteq> dirty_blocks r"
    "\<not> write_mode r \<Longrightarrow> band r' = band r \<and> dirty_blocks r' = dirty_blocks r"
    "coherent r \<Longrightarrow> coherent r' \<and> (\<forall>j. valid_block r j \<longrightarrow> block_content r' j = block_content r j)"
    "dirty_contained r \<Longrightarrow> write_mode r \<or> dirty_blocks r = {} \<Longrightarrow> dirty_contained r'"
    "max_size (lru_cache r') = max_size (lru_cache r)"
    by blast
  show thesis
    by (rule that [of r']) (use r' ne bc in simp_all)
next
  case (Some buf)
  then have bc: "block_content r k = buf" by (simp add: block_content_def)
  from Some have ex: "lru_exist (lru_cache r) k" by (simp add: lru_exist_map)
  show thesis
    by (rule that [of r]) (use Some ex bc c in simp_all)
qed

lemma geometry_ok_open:
  assumes "geometry_ok r"
  shows "\<not> closed r" "block_xsize r \<noteq> 0" "block_ysize r \<noteq> 0"
  using assms geometry_nx(3,4) [OF assms] by (simp_all add: geometry_ok_def)

lemma get_ok:
  assumes g: "geometry_ok r" and c: "cache_ok r" and p: "in_raster r x y"
  obtains r' where "ManagedRaster_get r x y = Inr (pixel_value r x y, r')"
    "geometry_of r' = geometry_of r" "cache_ok r'"
    "dirty_blocks r' \<subseteq> dirty_blocks r"
    "\<not> write_mode r \<Longrightarrow> band r' = band r \<and> dirty_blocks r' = dirty_blocks r"
    "coherent r \<Longrightarrow> coherent r' \<and> (\<forall>j. valid_block r j \<longrightarrow> block_content r' j = block_content r j)"
    "dirty_contained r \<Longrightarrow> write_mode r \<or> dirty_blocks r = {} \<Longrightarrow> dirty_contained r'"
    "max_size (lru_cache r') = max_size (lru_cache r)"
proof -
  let ?k = "block_index_of r x y"
  let ?buf = "block_content r ?k"
  let ?idx = "pixel_idx r ?k x y"
  note vk = pixel_valid_block [OF g p]
  from ensure_loaded [OF g c vk] obtain r1 where r1:
    "(if \<not> lru_exist (lru_cache r) ?k then load_block r ?k else Inr r) = Inr r1"
    "geometry_of r1 = geometry_of r" "cache_ok r1"
    "cache_map r1 ?k = Some ?buf"
    "dirty_blocks r1 \<subseteq> dirty_blocks r"
    "\<not> write_mode r \<Longrightarrow> band r1 = band r \<and> dirty_blocks r1 = dirty_blocks r"
    "coherent r \<Longrightarrow> coherent r1 \<and> (\<forall>j. valid_block r j \<longrightarrow> block_content r1 j = block_content r j)"
    "dirty_contained r \<Longrightarrow> write_mode r \<or> dirty_blocks r = {} \<Longrightarrow> dirty_contained r1"
    "max_size (lru_cache r1) = max_size (lru_cache r)"
    by blast
  from r1(3) have d1: "cache_keys_distinct r1" by (simp add: cache_ok_map)
  from lru_get_map [of "lru_cache r1" ?k ?buf] d1 r1(4)
  obtain c2 where c2: "lru_get (lru_cache r1) ?k = Inr (?buf, c2)" "distinct (map fst (cache_items c2))"
    "map_of (cache_items c2) = map_of (cache_items (lru_cache r1))" "max_size c2 = max_size (lru_cache r1)"
    unfolding cache_map_def cache_keys_distinct_def by blast
  let ?r' = "r1\<lparr>lru_cache := c2\<rparr>"
  have f: "geometry_of ?r' = geometry_of r1" "band ?r' = band r1" "cache_map ?r' = cache_map r1"
    "cache_keys_distinct ?r'" "dirty_blocks ?r' = dirty_blocks r1"
    using c2 by (simp_all add: geometry_of_def cache_map_def cache_keys_distinct_def)
  note sv = same_view [OF f(1,2,3,4) d1]
  have len: "length ?buf = length (block_on_disk r ?k)"
    using r1(3,4) block_on_disk_length [OF r1(2)] by (simp add: cache_ok_map)
  note dp = disk_pixel [OF g p]
  have idx1: "pixel_idx r1 ?k x y = ?idx" by (simp add: geometry_of_eq(3) [OF r1(2)])
  have abw: "\<not> (?k < 0 \<or> int (length (actualBlockWidths r1)) \<le> ?k)"
  proof -
    from vk have "0 \<le> ?k" "?k < block_nx r * block_ny r" by (simp_all add: valid_block_def)
    from abw_nth(1) [OF g this] this(1) show ?thesis
      unfolding geometry_of_eq(11) [OF r1(2)] by linarith
  qed
  have ib: "\<not> (?idx < 0 \<or> int (length ?buf) \<le> ?idx)" using dp(1,2) len by simp
  have get: "ManagedRaster_get r x y = Inr (?buf ! nat ?idx, ?r')"
    unfolding ManagedRaster_get_def Let_def
    using geometry_ok_open [OF g] r1(1) c2(1) abw ib idx1 by simp
  show thesis
  proof (rule that [of ?r'])
    show "ManagedRaster_get r x y = Inr (pixel_value r x y, ?r')"
      using get pixel_value_content [OF g p] by simp
    show "geometry_of ?r' = geometry_of r" using f(1) r1(2) by simp
    show "cache_ok ?r'" using sv(1) r1(3) by simp
    show "dirty_blocks ?r' \<subseteq> dirty_blocks r" using r1(5) by simp
    show "band ?r' = band r \<and> dirty_blocks ?r' = dirty_blocks r" if "\<not> write_mode r"
      using r1(6) [OF that] by simp
    show "coherent ?r' \<and> (\<forall>j. valid_block r j \<longrightarrow> block_content ?r' j = block_content r j)" if "coherent r"
      using r1(7) [OF that] sv(2) sv(3) [OF f(5)] by simp
    show "dirty_contained ?r'" if "dirty_contained r" "write_mode r \<or> dirty_blocks r = {}"
      using r1(8) [OF that] sv(4) [OF f(5)] by simp
    show "max_size (lru_cache ?r') = max_size (lru_cache r)" using c2(4) r1(9) by simp
  qed
qed

lemma set_ok:
  assumes g: "geometry_ok r" and c: "cache_ok r" and p: "in_raster r x y"
  obtains r' where "ManagedRaster_set r x y v = Inr r'"
    "geometry_of r' = geometry_of r" "cache_ok r'"
    "pixel_value r' x y = v"
    "block_content r' (block_index_of r x y) =
       (block_content r (block_index_of r x y))[nat (pixel_idx r (block_index_of r x y) x y) := v]"
    "\<not> write_mode r \<Longrightarrow> band r' = band r \<and> dirty_blocks r' = dirty_blocks r"
    "write_mode r \<Longrightarrow> coherent r \<Longrightarrow> coherent r'"
    "coherent r \<Longrightarrow>
       (\<forall>j. valid_block r j \<longrightarrow> j \<noteq> block_index_of r x y \<longrightarrow> block_content r' j = block_content r j)"
    "dirty_contained r \<Longrightarrow> write_mode r \<or> dirty_blocks r = {} \<Longrightarrow> dirty_contained r'"
    "max_size (lru_cache r') = max_size (lru_cache r)"
proof -
  let ?k = "block_index_of r x y"
  let ?buf = "block_content r ?k"
  let ?idx = "pixel_idx r ?k x y"
  note vk = pixel_valid_block [OF g p]
  from ensure_loaded [OF g c vk] obtain r1 where r1:
    "(if \<not> lru_exist (lru_cache r) ?k then load_block r ?k else Inr r) = Inr r1"
    "geometry_of r1 = geometry_of r" "cache_ok r1"
    "cache_map r1 ?k = Some ?buf"
    "dirty_blocks r1 \<subseteq> dirty_blocks r"
    "\<not> write_mode r \<Longrightarrow> band r1 = band r \<and> dirty_blocks r1 = dirty_blocks r"
    "coherent r \<Longrightarrow> coherent r1 \<and> (\<forall>j. valid_block r j \<longrightarrow> block_content r1 j = block_content r j)"
    "dirty_contained r \<Longrightarrow> write_mode r \<or> dirty_blocks r = {} \<Longrightarrow> dirty_contained r1"
    "max_size (lru_cache r1) = max_size (lru_cache r)"
    by blast
  from r1(3) have d1: "cache_keys_distinct r1"
    and cm1: "\<And>j b. cache_map r1 j = Some b \<Longrightarrow>
                0 \<le> j \<and> j < block_nx r1 * block_ny r1 \<and> length b = length (block_on_disk r1 j)"
    by (simp_all add: cache_ok_map)
  from lru_get_map [of "lru_cache r1" ?k ?buf] d1 r1(4)
  obtain c2 where c2: "lru_get (lru_cache r1) ?k = Inr (?buf, c2)" "distinct (map fst (cache_items c2))"
    "map_of (cache_items c2) = map_of (cache_items (lru_cache r1))" "max_size c2 = max_size (lru_cache r1)"
    unfolding cache_map_def cache_keys_distinct_def by blast
  have c2k: "map_of (cache_items c2) ?k = Some ?buf" using c2(3) r1(4) by (simp add: cache_map_def)
  note bs = buffer_store_map [OF c2k, of "nat ?idx" v]
  let ?c3 = "buffer_store c2 ?k (nat ?idx) v"
  let ?r2 = "r1\<lparr>lru_cache := ?c3\<rparr>"
  define r' where "r' = (if write_mode ?r2 then ?r2\<lparr>dirty_blocks := insert ?k (dirty_blocks ?r2)\<rparr> else ?r2)"
  have wm: "write_mode ?r2 = write_mode r" using geometry_of_eq(9) [OF r1(2)] by simp
  have f: "geometry_of r' = geometry_of r1" "band r' = band r1"
    "cache_map r' = (cache_map r1)(?k \<mapsto> ?buf[nat ?idx := v])"
    "cache_keys_distinct r'"
    "dirty_blocks r' = (if write_mode r then insert ?k (dirty_blocks r1) else dirty_blocks r1)"
    "max_size (lru_cache r') = max_size (lru_cache r1)"
    using bs c2 wm by (simp_all add: r'_def geometry_of_def cache_map_def cache_keys_distinct_def)
  have go: "geometry_of r' = geometry_of r" using f(1) r1(2) by simp
  note bod = block_on_disk_cong [OF f(1,2)]
  have len: "length ?buf = length (block_on_disk r ?k)"
    using r1(3,4) block_on_disk_length [OF r1(2)] by (simp add: cache_ok_map)
  note dp = disk_pixel [OF g p]
  have idx1: "pixel_idx r1 ?k x y = ?idx" by (simp add: geometry_of_eq(3) [OF r1(2)])
  have abw: "\<not> (?k < 0 \<or> int (length (actualBlockWidths r1)) \<le> ?k)"
  proof -
    from vk have "0 \<le> ?k" "?k < block_nx r * block_ny r" by (simp_all add: valid_block_def)
    from abw_nth(1) [OF g this] this(1) show ?thesis
      unfolding geometry_of_eq(11) [OF r1(2)] by linarith
  qed
  have ib: "\<not> (?idx < 0 \<or> int (length ?buf) \<le> ?idx)" using dp(1,2) len by simp
  have set: "ManagedRaster_set r x y v = Inr r'"
    unfolding ManagedRaster_set_def Let_def r'_def
    using geometry_ok_open [OF g] r1(1) c2(1) abw ib idx1 by simp
  have bc: "block_content r' j = (if j = ?k then ?buf[nat ?idx := v] else block_content r1 j)" for j
    unfolding block_content_def f(3) bod by simp
  have g': "geometry_ok r'" using g by (simp add: geometry_of_eq(5) [OF go])
  have p': "in_raster r' x y" using p by (simp add: geometry_of_eq(4) [OF go])
  show thesis
  proof (rule that [of r'])
    show "ManagedRaster_set r x y v = Inr r'" by (rule set)
    show "geometry_of r' = geometry_of r" by (rule go)
    show "cache_ok r'"
      unfolding cache_ok_map f(3) bod using f(4) cm1 r1(4)
      by (auto simp: geometry_of_eq(7,8) [OF f(1)] split: if_splits)
    show "pixel_value r' x y = v"
    proof -
      have "nat ?idx < length ?buf" using dp(1,2) len by simp
      then show ?thesis
        unfolding pixel_value_content [OF g' p'] geometry_of_eq(2,3) [OF go] bc by simp
    qed
    show "block_content r' ?k = ?buf[nat ?idx := v]" by (simp add: bc)
    show "band r' = band r \<and> dirty_blocks r' = dirty_blocks r" if "\<not> write_mode r"
      using r1(6) [OF that] that f(2,5) by simp
    show "coherent r'" if "write_mode r" "coherent r"
    proof -
      from r1(7) [OF that(2)] have "coherent r1" by simp
      then show ?thesis
        unfolding coherent_map [OF d1] coherent_map [OF f(4)] f(3) f(5) bod
          geometry_of_eq(9) [OF f(1)] geometry_of_eq(9) [OF r1(2)]
        using that(1) by auto
    qed
    show "\<forall>j. valid_block r j \<longrightarrow> j \<noteq> ?k \<longrightarrow> block_content r' j = block_content r j" if "coherent r"
      using r1(7) [OF that] by (simp add: bc)
    show "dirty_contained r'" if "dirty_contained r" "write_mode r \<or> dirty_blocks r = {}"
      using r1(8) [OF that] unfolding dirty_contained_map f(3) f(5) by auto
    show "max_size (lru_cache r') = max_size (lru_cache r)" using f(6) r1(9) by simp
  qed
qed

section \<open>The example rasters\<close>

definition example_state :: "string \<Rightarrow> real \<Rightarrow> bool \<Rightarrow> ManagedRaster" where
  "example_state p v wmode =
     \<lparr>lru_cache = \<lparr>max_size = 64, cache_items = []\<rparr>, dirty_blocks = {},
      actualBlockWidths = [2, 1, 2, 1],
      block_xsize = 2, block_ysize = 2, block_xmod = 1, block_ymod = 1,
      block_xbits = 1, block_ybits = 1, raster_x_size = 3, raster_y_size = 3,
      block_nx = 2, block_ny = 2, raster_path = p, band_id = 1,
      dataset = (example_dataset (example_band v))\<lparr>ds_access := GA_Update\<rparr>,
      band = example_band v, write_mode = wmode, closed = False, nodata = None,
      geotransform = [0, 1, 0, 0, 0, -1]\<rparr>"

lemma example_init_gen:
  assumes "fs p = Some (example_dataset (example_band v))"
  shows "ManagedRaster_init fs p 1 wmode = Inr (example_state p v wmode)"
  using assms
  by (simp add: ManagedRaster_init_def GDALOpen_def example_dataset_def example_band_def
        GetRasterCount_def GetRasterBand_def block_size_not_power_of_two_def Let_def
        LRUCache_new_def MANAGED_RASTER_N_BLOCKS_def cdiv_def GetActualBlockSize_def
        upt_conv_Cons example_state_def)

lemma example_raster_eq:
  "example_raster ''flow_a'' wmode = example_state ''flow_a'' 0x14 wmode"
  "example_raster ''flow_b'' wmode = example_state ''flow_b'' 0x10004 wmode"
proof -
  have a: "example_fs ''flow_a'' = Some (example_dataset (example_band 0x14))"
    and b: "example_fs ''flow_b'' = Some (example_dataset (example_band 0x10004))"
    by (simp_all add: example_fs_def)
  show "example_raster ''flow_a'' wmode = example_state ''flow_a'' 0x14 wmode"
    unfolding example_raster_def example_init_gen [of example_fs "''flow_a''" "0x14", OF a] by simp
  show "example_raster ''flow_b'' wmode = example_state ''flow_b'' 0x10004 wmode"
    unfolding example_raster_def example_init_gen [of example_fs "''flow_b''" "0x10004", OF b] by simp
qed

lemma example_state_init:
  "ManagedRaster_init example_fs ''flow_a'' 1 wmode = Inr (example_state ''flow_a'' 0x14 wmode)"
  "ManagedRaster_init example_fs ''flow_b'' 1 wmode = Inr (example_state ''flow_b'' 0x10004 wmode)"
proof -
  have a: "example_fs ''flow_a'' = Some (example_dataset (example_band 0x14))"
    and b: "example_fs ''flow_b'' = Some (example_dataset (example_band 0x10004))"
    by (simp_all add: example_fs_def)
  show "ManagedRaster_init example_fs ''flow_a'' 1 wmode = Inr (example_state ''flow_a'' 0x14 wmode)"
    by (rule example_init_gen [of example_fs "''flow_a''" "0x14", OF a])
  show "ManagedRaster_init example_fs ''flow_b'' 1 wmode = Inr (example_state ''flow_b'' 0x10004 wmode)"
    by (rule example_init_gen [of example_fs "''flow_b''" "0x10004", OF b])
qed

lemma example_state_ok:
  "geometry_ok (example_state p v wmode)" "cache_ok (example_state p v wmode)"
  "coherent (example_state p v wmode)" "dirty_contained (example_state p v wmode)"
  by (simp_all add: geometry_ok_def cache_ok_def coherent_def dirty_contained_def example_state_def
        cdiv_def GetActualBlockSize_def upt_conv_Cons)

lemma example_state_in_raster:
  "in_raster (example_state p v wmode) x y \<longleftrightarrow> 0 \<le> x \<and> x < 3 \<and> 0 \<le> y \<and> y < 3"
  by (auto simp: in_raster_iff example_state_def)

lemma example_state_pixel:
  "pixel_value (example_state p v wmode) x y = (if x = 2 \<and> y = 1 then v else 0)"
  by (simp add: pixel_value_def example_state_def example_band_def Let_def)

text \<open>
  C1: on an open raster, for every coordinate in bounds and every value, \<^verbatim>\<open>set\<close> followed
  by \<^verbatim>\<open>get\<close> at the same coordinate returns the value; the cache may hold any blocks.
\<close>

theorem C1_read_after_write:
  assumes "geometry_ok r" and "cache_ok r" and "in_raster r xi yi"
  shows "\<exists>r' r''. ManagedRaster_set r xi yi v = Inr r' \<and> ManagedRaster_get r' xi yi = Inr (v, r'')"
proof -
  obtain r' where s:
    "ManagedRaster_set r xi yi v = Inr r'" "geometry_of r' = geometry_of r" "cache_ok r'"
    "pixel_value r' xi yi = v"
    by (rule set_ok [OF assms, of v])
  have g': "geometry_ok r'" using assms(1) by (simp add: geometry_of_eq(5) [OF s(2)])
  have p': "in_raster r' xi yi" using assms(3) by (simp add: geometry_of_eq(4) [OF s(2)])
  obtain r'' where "ManagedRaster_get r' xi yi = Inr (pixel_value r' xi yi, r'')"
    by (rule get_ok [OF g' s(3) p'])
  with s show ?thesis by auto
qed

theorem C1_read_after_write_witness:
  "geometry_ok (example_raster ''flow_a'' True) \<and> cache_ok (example_raster ''flow_a'' True) \<and>
   in_raster (example_raster ''flow_a'' True) 2 1 \<and>
   (\<exists>r' r''. ManagedRaster_set (example_raster ''flow_a'' True) 2 1 7 = Inr r' \<and>
      ManagedRaster_get r' 2 1 = Inr (7, r''))"
proof -
  have g: "geometry_ok (example_raster ''flow_a'' True)" and c: "cache_ok (example_raster ''flow_a'' True)"
    by (simp_all add: example_raster_eq example_state_ok)
  have p: "in_raster (example_raster ''flow_a'' True) 2 1"
    by (simp add: example_raster_eq example_state_in_raster)
  from C1_read_after_write [OF g c p, of 7] g c p show ?thesis by simp
qed

section \<open>Read-only rasters and close\<close>

lemma flush_removed_read_only: "\<not> write_mode r \<Longrightarrow> flush_removed r l = r"
  by (induction l) simp_all

lemma load_block_read_only:
  assumes "\<not> write_mode r" "load_block r k = Inr r'"
  shows "band r' = band r \<and> dirty_blocks r' = dirty_blocks r \<and> dataset r' = dataset r \<and>
         write_mode r' = write_mode r"
  using assms
  by (auto simp: load_block_def Let_def flush_removed_read_only split: if_splits prod.splits)

lemma ensure_loaded_read_only:
  assumes "\<not> write_mode r"
    and "(if \<not> lru_exist (lru_cache r) k then load_block r k else Inr r) = Inr r1"
  shows "band r1 = band r \<and> dirty_blocks r1 = dirty_blocks r \<and> dataset r1 = dataset r \<and>
         write_mode r1 = write_mode r"
  using assms load_block_read_only [OF assms(1), of k r1] by (auto split: if_splits)

lemma get_read_only:
  assumes "\<not> write_mode r" "ManagedRaster_get r xi yi = Inr (v, r')"
  shows "band r' = band r \<and> dirty_blocks r' = dirty_blocks r \<and> dataset r' = dataset r \<and>
         write_mode r' = write_mode r"
proof -
  let ?k = "block_index_of r xi yi"
  from assms(2) obtain r1 c where
    e: "(if \<not> lru_exist (lru_cache r) ?k then load_block r ?k else Inr r) = Inr r1"
    and r': "r' = r1\<lparr>lru_cache := c\<rparr>"
    unfolding ManagedRaster_get_def Let_def
    by (auto split: if_splits sum.splits prod.splits)
  from ensure_loaded_read_only [OF assms(1) e] r' show ?thesis by simp
qed

lemma set_read_only:
  assumes "\<not> write_mode r" "ManagedRaster_set r xi yi v = Inr r'"
  shows "band r' = band r \<and> dirty_blocks r' = dirty_blocks r \<and> dataset r' = dataset r \<and>
         write_mode r' = write_mode r"
proof -
  let ?k = "block_index_of r xi yi"
  from assms(2) obtain r1 c where
    e: "(if \<not> lru_exist (lru_cache r) ?k then load_block r ?k else Inr r) = Inr r1"
    and r': "r' = (if write_mode r1 then r1\<lparr>lru_cache := c, dirty_blocks := insert ?k (dirty_blocks r1)\<rparr>
                   else r1\<lparr>lru_cache := c\<rparr>)"
    unfolding ManagedRaster_set_def Let_def
    by (auto split: if_splits sum.splits prod.splits)
  from ensure_loaded_read_only [OF assms(1) e] r' assms(1) show ?thesis by simp
qed

lemma close_read_only:
  "\<not> write_mode r \<Longrightarrow> ManagedRaster_close r = (if closed r then r else r\<lparr>closed := True\<rparr>)"
  by (simp add: ManagedRaster_close_def Let_def)

lemma run_op_read_only:
  assumes "\<not> write_mode r" "run_op r opn = Inr r'"
  shows "band r' = band r \<and> dirty_blocks r' = dirty_blocks r \<and> dataset r' = dataset r \<and>
         write_mode r' = write_mode r"
proof (cases opn)
  case (Get xi yi)
  with assms obtain v where "ManagedRaster_get r xi yi = Inr (v, r')"
    by (cases "ManagedRaster_get r xi yi") auto
  from get_read_only [OF assms(1) this] show ?thesis .
next
  case (Set xi yi v)
  with assms set_read_only [OF assms(1), of xi yi v r'] show ?thesis by simp
next
  case Close
  with assms show ?thesis by (cases "closed r") (auto simp: close_read_only)
qed

lemma run_ops_read_only:
  "\<not> write_mode r \<Longrightarrow> run_ops r ops = Inr r' \<Longrightarrow>
   band r' = band r \<and> dirty_blocks r' = dirty_blocks r \<and> dataset r' = dataset r"
proof (induction ops arbitrary: r)
  case Nil
  then show ?case by simp
next
  case (Cons opn ops)
  from Cons.prems(2) obtain r1 where r1: "run_op r opn = Inr r1" "run_ops r1 ops = Inr r'"
    by (cases "run_op r opn") auto
  note s = run_op_read_only [OF Cons.prems(1) r1(1)]
  with Cons.prems(1) have "\<not> write_mode r1" by simp
  from Cons.IH [OF this r1(2)] s show ?case by simp
qed

text \<open>
  C10: on a raster that is not in write mode, \<^verbatim>\<open>set\<close> at a coordinate in bounds is defined
  and a following \<^verbatim>\<open>get\<close> returns the value; the dirty set and the band on disk are
  unchanged by the \<^verbatim>\<open>set\<close>, by the \<^verbatim>\<open>get\<close> and by \<^verbatim>\<open>close\<close>; and no sequence of
  operations changes the band on disk or the dirty set.
\<close>

theorem C10_set_on_read_only_raster:
  assumes "geometry_ok r" and "cache_ok r" and "\<not> write_mode r" and "in_raster r xi yi"
  shows "(\<exists>r' r''. ManagedRaster_set r xi yi v = Inr r' \<and>
            ManagedRaster_get r' xi yi = Inr (v, r'') \<and>
            dirty_blocks r' = dirty_blocks r \<and> band r' = band r \<and>
            dirty_blocks (ManagedRaster_close r'') = dirty_blocks r \<and>
            band (ManagedRaster_close r'') = band r) \<and>
         (\<forall>ops r3. run_ops r ops = Inr r3 \<longrightarrow>
            band r3 = band r \<and> dirty_blocks r3 = dirty_blocks r)"
proof (intro conjI allI impI)
  obtain r' where s:
    "ManagedRaster_set r xi yi v = Inr r'" "geometry_of r' = geometry_of r" "cache_ok r'"
    "pixel_value r' xi yi = v"
    by (rule set_ok [OF assms(1,2,4), of v])
  have g': "geometry_ok r'" using assms(1) by (simp add: geometry_of_eq(5) [OF s(2)])
  have p': "in_raster r' xi yi" using assms(4) by (simp add: geometry_of_eq(4) [OF s(2)])
  obtain r'' where gt: "ManagedRaster_get r' xi yi = Inr (pixel_value r' xi yi, r'')"
    by (rule get_ok [OF g' s(3) p'])
  note f1 = set_read_only [OF assms(3) s(1)]
  then have ro': "\<not> write_mode r'" using assms(3) by simp
  note f2 = get_read_only [OF ro' gt]
  then have ro'': "\<not> write_mode r''" using ro' by simp
  have "band (ManagedRaster_close r'') = band r''"
    "dirty_blocks (ManagedRaster_close r'') = dirty_blocks r''"
    using ro'' by (simp_all add: close_read_only)
  with s gt f1 f2
  show "\<exists>r' r''. ManagedRaster_set r xi yi v = Inr r' \<and>
            ManagedRaster_get r' xi yi = Inr (v, r'') \<and>
            dirty_blocks r' = dirty_blocks r \<and> band r' = band r \<and>
            dirty_blocks (ManagedRaster_close r'') = dirty_blocks r \<and>
            band (ManagedRaster_close r'') = band r"
    by (intro exI [of _ r'] exI [of _ r'']) simp
next
  fix ops r3 assume "run_ops r ops = Inr r3"
  from run_ops_read_only [OF assms(3) this]
  show "band r3 = band r" "dirty_blocks r3 = dirty_blocks r" by simp_all
qed

theorem C10_set_on_read_only_raster_witness:
  "geometry_ok (example_raster ''flow_a'' False) \<and> cache_ok (example_raster ''flow_a'' False) \<and>
   \<not> write_mode (example_raster ''flow_a'' False) \<and>
   in_raster (example_raster ''flow_a'' False) 2 1 \<and>
   dirty_blocks (example_raster ''flow_a'' False) = {} \<and>
   (\<exists>r' r''. ManagedRaster_set (example_raster ''flow_a'' False) 2 1 7 = Inr r' \<and>
      ManagedRaster_get r' 2 1 = Inr (7, r'') \<and>
      dirty_blocks r' = {} \<and> band r' = band (example_raster ''flow_a'' False) \<and>
      dirty_blocks (ManagedRaster_close r'') = {} \<and>
      band (ManagedRaster_close r'') = band (example_raster ''flow_a'' False))"
proof -
  let ?r = "example_raster ''flow_a'' False"
  have g: "geometry_ok ?r" and c: "cache_ok ?r"
    by (simp_all add: example_raster_eq example_state_ok)
  have p: "in_raster ?r 2 1" by (simp add: example_raster_eq example_state_in_raster)
  have w: "\<not> write_mode ?r" and d: "dirty_blocks ?r = {}"
    by (simp_all add: example_raster_eq example_state_def)
  from C10_set_on_read_only_raster [OF g c w p, of 7] g c w p d show ?thesis by simp
qed

section \<open>Dirty blocks are resident\<close>

lemma close_flush_fields:
  "dirty_blocks (close_flush r items) = dirty_blocks r - fst ` set items"
  "lru_cache (close_flush r items) = lru_cache r"
  "closed (close_flush r items) = closed r"
  "write_mode (close_flush r items) = write_mode r"
proof (induction items arbitrary: r)
  case Nil
  {
    case 1 show ?case by simp
  next
    case 2 show ?case by simp
  next
    case 3 show ?case by simp
  next
    case 4 show ?case by simp
  }
next
  case (Cons p items)
  have wb: "closed (write_back r k b) = closed r" "write_mode (write_back r k b) = write_mode r"
    for r :: ManagedRaster and k b
    by (simp_all add: write_back_def split: prod.splits)
  {
    case 1 show ?case by (auto simp: Cons.IH(1) write_back_fields)
  next
    case 2 show ?case by (simp add: Cons.IH(2) write_back_fields)
  next
    case 3 show ?case by (simp add: Cons.IH(3) wb)
  next
    case 4 show ?case by (simp add: Cons.IH(4) wb)
  }
qed

lemma close_write_mode:
  assumes "write_mode r" "\<not> closed r" "dirty_contained r"
  shows "cache_items (lru_cache (ManagedRaster_close r)) = []"
    "dirty_blocks (ManagedRaster_close r) = {}" "closed (ManagedRaster_close r)"
  using assms
  by (auto simp: ManagedRaster_close_def Let_def close_flush_fields dirty_contained_def)

text \<open>Operations whose coordinates are in bounds.\<close>

fun op_in_raster :: "ManagedRaster \<Rightarrow> raster_op \<Rightarrow> bool" where
  "op_in_raster r (Get xi yi) = in_raster r xi yi"
| "op_in_raster r (Set xi yi v) = in_raster r xi yi"
| "op_in_raster r Close = False"

definition dirty_ok :: "ManagedRaster \<Rightarrow> bool" where
  "dirty_ok r \<longleftrightarrow> geometry_ok r \<and> cache_ok r \<and> dirty_contained r \<and> (write_mode r \<or> dirty_blocks r = {})"

lemma run_op_dirty_ok:
  assumes ok: "dirty_ok r" and ib: "op_in_raster r opn"
  obtains r' where "run_op r opn = Inr r'" "dirty_ok r'" "geometry_of r' = geometry_of r"
proof (cases opn)
  case (Get xi yi)
  from ok have g: "geometry_ok r" and c: "cache_ok r" and dc: "dirty_contained r"
    and wd: "write_mode r \<or> dirty_blocks r = {}" by (simp_all add: dirty_ok_def)
  from ib Get have p: "in_raster r xi yi" by simp
  obtain r' where r': "ManagedRaster_get r xi yi = Inr (pixel_value r xi yi, r')"
    "geometry_of r' = geometry_of r" "cache_ok r'" "dirty_blocks r' \<subseteq> dirty_blocks r"
    "dirty_contained r'"
    using get_ok [OF g c p] dc wd by metis
  show thesis
  proof (rule that [of r'])
    show "run_op r opn = Inr r'" using Get r'(1) by simp
    show "geometry_of r' = geometry_of r" by (rule r'(2))
    show "dirty_ok r'" unfolding dirty_ok_def geometry_of_eq(5,9) [OF r'(2)]
      using g r'(3,4,5) wd by auto
  qed
next
  case (Set xi yi v)
  from ok have g: "geometry_ok r" and c: "cache_ok r" and dc: "dirty_contained r"
    and wd: "write_mode r \<or> dirty_blocks r = {}" by (simp_all add: dirty_ok_def)
  from ib Set have p: "in_raster r xi yi" by simp
  obtain r' where r': "ManagedRaster_set r xi yi v = Inr r'"
    "geometry_of r' = geometry_of r" "cache_ok r'"
    "\<not> write_mode r \<Longrightarrow> band r' = band r \<and> dirty_blocks r' = dirty_blocks r"
    "dirty_contained r'"
    using set_ok [OF g c p, of v] dc wd by metis
  show thesis
  proof (rule that [of r'])
    show "run_op r opn = Inr r'" using Set r'(1) by simp
    show "geometry_of r' = geometry_of r" by (rule r'(2))
    show "dirty_ok r'" unfolding dirty_ok_def geometry_of_eq(5,9) [OF r'(2)]
      using g r'(3,4,5) wd by auto
  qed
next
  case Close
  with ib show thesis by simp
qed

lemma op_in_raster_cong:
  assumes "geometry_of r' = geometry_of r"
  shows "op_in_raster r' opn = op_in_raster r opn"
  by (cases opn) (simp_all add: geometry_of_eq(4) [OF assms])

lemma run_ops_dirty_ok:
  assumes "dirty_ok r" and "\<forall>opn \<in> set ops. op_in_raster r opn"
  shows "\<exists>r'. run_ops r ops = Inr r' \<and> dirty_ok r' \<and> geometry_of r' = geometry_of r"
  using assms
proof (induction ops arbitrary: r)
  case Nil
  then show ?case by simp
next
  case (Cons opn ops)
  from Cons.prems have ib: "op_in_raster r opn" by simp
  obtain r1 where r1: "run_op r opn = Inr r1" "dirty_ok r1" "geometry_of r1 = geometry_of r"
    by (rule run_op_dirty_ok [OF Cons.prems(1) ib])
  from Cons.prems(2) have "\<forall>o' \<in> set ops. op_in_raster r1 o'"
    by (simp add: op_in_raster_cong [OF r1(3)])
  from Cons.IH [OF r1(2) this] obtain r' where
    "run_ops r1 ops = Inr r'" "dirty_ok r'" "geometry_of r' = geometry_of r1" by blast
  with r1 show ?case by simp
qed

lemma example_get_0_0:
  "ManagedRaster_get (example_state p v wmode) 0 0 =
     Inr (0, (example_state p v wmode)\<lparr>lru_cache := \<lparr>max_size = 64, cache_items = [(0, [0, 0, 0, 0])]\<rparr>\<rparr>)"
  by (simp add: ManagedRaster_get_def example_state_def block_index_of_def cdiv_def cmod_def
        lru_exist_def load_block_def block_window_def RasterIO_Read_def upt_conv_Cons
        lru_put_def lru_get_def pixel_idx_def example_band_def Let_def)

text \<open>
  C7 on a raster that is not in write mode: after one \<^verbatim>\<open>get\<close> and \<^verbatim>\<open>close()\<close> the cache
  still has the entry of block 0, where the same calls in write mode leave no entry.
\<close>

theorem C7_close_keeps_cache_when_not_write_mode:
  "map_sum id (\<lambda>r. (closed r, map fst (cache_items (lru_cache r)), dirty_blocks r))
     (run_ops (example_raster ''flow_a'' False) [Get 0 0, Close]) = Inr (True, [0], {}) \<and>
   map_sum id (\<lambda>r. (closed r, map fst (cache_items (lru_cache r)), dirty_blocks r))
     (run_ops (example_raster ''flow_a'' True) [Get 0 0, Close]) = Inr (True, [], {})"
  by (simp add: example_raster_eq example_get_0_0 ManagedRaster_close_def Let_def)
     (simp add: example_state_def)

section \<open>Reading pixels of a coherent raster\<close>

lemma raster_ok_geometry_of:
  assumes "geometry_of r' = geometry_of r"
  shows "in_raster r' = in_raster r" "geometry_ok r' = geometry_ok r"
    "raster_x_size r' = raster_x_size r" "raster_y_size r' = raster_y_size r"
  by (rule geometry_of_eq [OF assms])+

lemma get_raster_ok:
  assumes ok: "raster_ok r" and p: "in_raster r x y"
  obtains r' where "ManagedRaster_get r x y = Inr (pixel_value r x y, r')" "raster_ok r'"
    "geometry_of r' = geometry_of r" "dirty_blocks r' \<subseteq> dirty_blocks r"
    "\<forall>x' y'. in_raster r x' y' \<longrightarrow> pixel_value r' x' y' = pixel_value r x' y'"
proof -
  from ok have g: "geometry_ok r" and c: "cache_ok r" and co: "coherent r"
    by (simp_all add: raster_ok_def)
  obtain r' where r': "ManagedRaster_get r x y = Inr (pixel_value r x y, r')"
    "geometry_of r' = geometry_of r" "cache_ok r'" "dirty_blocks r' \<subseteq> dirty_blocks r"
    "\<not> write_mode r \<Longrightarrow> band r' = band r \<and> dirty_blocks r' = dirty_blocks r"
    "coherent r \<Longrightarrow> coherent r' \<and> (\<forall>j. valid_block r j \<longrightarrow> block_content r' j = block_content r j)"
    "dirty_contained r \<Longrightarrow> write_mode r \<or> dirty_blocks r = {} \<Longrightarrow> dirty_contained r'"
    "max_size (lru_cache r') = max_size (lru_cache r)"
    using get_ok [OF g c p] by blast
  have g': "geometry_ok r'" using g by (simp add: geometry_of_eq(5) [OF r'(2)])
  show thesis
  proof (rule that [of r'])
    show "ManagedRaster_get r x y = Inr (pixel_value r x y, r')" by (rule r'(1))
    show "raster_ok r'" using g' r'(3) r'(6) [OF co] by (simp add: raster_ok_def)
    show "geometry_of r' = geometry_of r" by (rule r'(2))
    show "dirty_blocks r' \<subseteq> dirty_blocks r" by (rule r'(4))
    show "\<forall>x' y'. in_raster r x' y' \<longrightarrow> pixel_value r' x' y' = pixel_value r x' y'"
    proof (intro allI impI)
      fix x' y' assume q: "in_raster r x' y'"
      then have q': "in_raster r' x' y'" by (simp add: geometry_of_eq(4) [OF r'(2)])
      from r'(6) [OF co] pixel_valid_block [OF g q]
      have "block_content r' (block_index_of r x' y') = block_content r (block_index_of r x' y')" by simp
      then show "pixel_value r' x' y' = pixel_value r x' y'"
        unfolding pixel_value_content [OF g' q'] pixel_value_content [OF g q]
          geometry_of_eq(2,3) [OF r'(2)] by simp
    qed
  qed
qed

lemma int_pixel_Some: "int_pixel r x y = Some v \<longleftrightarrow> double_to_int (pixel_value r x y) = Inr v"
  by (simp add: int_pixel_def split: sum.splits)

lemma int_pixel_cong:
  "pixel_value r' x y = pixel_value r x y \<Longrightarrow> int_pixel r' x y = int_pixel r x y"
  by (simp add: int_pixel_def)

lemma block_on_disk_dirty_update:
  "block_on_disk (r\<lparr>dirty_blocks := D\<rparr>) = block_on_disk r"
  by (rule block_on_disk_cong) (simp_all add: geometry_of_def)

lemma coherent_more_dirty:
  assumes "coherent r'" "dirty_blocks r' \<subseteq> D"
  shows "coherent (r'\<lparr>dirty_blocks := D\<rparr>)"
  using assms unfolding coherent_def block_on_disk_dirty_update by auto

lemma dirty_update_fields:
  "geometry_of (r\<lparr>dirty_blocks := D\<rparr>) = geometry_of r"
  "cache_ok (r\<lparr>dirty_blocks := D\<rparr>) = cache_ok r"
  "pixel_value (r\<lparr>dirty_blocks := D\<rparr>) x y = pixel_value r x y"
proof -
  show "geometry_of (r\<lparr>dirty_blocks := D\<rparr>) = geometry_of r" by (simp add: geometry_of_def)
  show "cache_ok (r\<lparr>dirty_blocks := D\<rparr>) = cache_ok r"
    unfolding cache_ok_def block_on_disk_dirty_update by simp
  have "block_index_of (r\<lparr>dirty_blocks := D\<rparr>) x y = block_index_of r x y"
    by (simp add: block_index_of_def)
  moreover have "pixel_idx (r\<lparr>dirty_blocks := D\<rparr>) k x y = pixel_idx r k x y" for k
    by (simp add: pixel_idx_def)
  ultimately show "pixel_value (r\<lparr>dirty_blocks := D\<rparr>) x y = pixel_value r x y"
    by (simp add: pixel_value_def Let_def split: option.splits)
qed

lemma Pixel_init_ok:
  assumes ok: "raster_ok r" and p: "in_raster r x y" and v: "int_pixel r x y = Some v"
  obtains px where "Pixel_init r x y = Inr px" "px_x px = x" "px_y px = y" "px_val px = v"
    "raster_ok (px_raster px)" "geometry_of (px_raster px) = geometry_of r"
    "\<forall>x' y'. in_raster r x' y' \<longrightarrow> pixel_value (px_raster px) x' y' = pixel_value r x' y'"
proof -
  obtain r' where r': "ManagedRaster_get r x y = Inr (pixel_value r x y, r')" "raster_ok r'"
    "geometry_of r' = geometry_of r" "dirty_blocks r' \<subseteq> dirty_blocks r"
    "\<forall>x' y'. in_raster r x' y' \<longrightarrow> pixel_value r' x' y' = pixel_value r x' y'"
    by (rule get_raster_ok [OF ok p])
  let ?r = "r'\<lparr>dirty_blocks := dirty_blocks r\<rparr>"
  let ?px = "\<lparr>px_raster = ?r, px_x = x, px_y = y, px_val = v\<rparr>"
  have go: "geometry_of ?r = geometry_of r" using r'(3) by (simp add: dirty_update_fields)
  show thesis
  proof (rule that [of ?px])
    show "Pixel_init r x y = Inr ?px"
      using r'(1) v by (simp add: Pixel_init_def int_pixel_Some)
    show "px_x ?px = x" "px_y ?px = y" "px_val ?px = v" by simp_all
    show "raster_ok (px_raster ?px)"
      using r'(2) coherent_more_dirty [OF _ r'(4)]
      by (simp add: raster_ok_def dirty_update_fields geometry_of_eq(5) [OF go] geometry_of_eq(5) [OF r'(3)])
    show "geometry_of (px_raster ?px) = geometry_of r" using go by simp
    show "\<forall>x' y'. in_raster r x' y' \<longrightarrow> pixel_value (px_raster ?px) x' y' = pixel_value r x' y'"
      using r'(5) by (simp add: dirty_update_fields)
  qed
qed

section \<open>Local high points\<close>

text \<open>Two raster states with the same geometry that hold the same pixel values.\<close>

definition same_pixels :: "ManagedRaster \<Rightarrow> ManagedRaster \<Rightarrow> bool" where
  "same_pixels r r' \<longleftrightarrow>
     geometry_of r' = geometry_of r \<and>
     (\<forall>x y. in_raster r x y \<longrightarrow> pixel_value r' x y = pixel_value r x y)"

lemma same_pixels_refl [simp]: "same_pixels r r"
  by (simp add: same_pixels_def)

lemma same_pixels_in_raster: "same_pixels r r' \<Longrightarrow> in_raster r' x y = in_raster r x y"
  unfolding same_pixels_def using geometry_of_eq(4) by metis

lemma same_pixels_size:
  assumes "same_pixels r r'"
  shows "raster_x_size r' = raster_x_size r" "raster_y_size r' = raster_y_size r"
  using assms geometry_of_eq(14,15) [of r' r] by (simp_all add: same_pixels_def)

lemma same_pixels_int_pixel:
  "same_pixels r r' \<Longrightarrow> in_raster r x y \<Longrightarrow> int_pixel r' x y = int_pixel r x y"
  by (simp add: same_pixels_def int_pixel_def)

lemma same_pixels_trans:
  assumes "same_pixels r r'" "same_pixels r' r''"
  shows "same_pixels r r''"
  using assms same_pixels_in_raster [OF assms(1)] by (simp add: same_pixels_def)

text \<open>The test of \<^verbatim>\<open>is_local_high_point\<close> on direction \<open>d\<close>.\<close>

definition no_inflow_from :: "ManagedRaster \<Rightarrow> int \<Rightarrow> int \<Rightarrow> int \<Rightarrow> bool" where
  "no_inflow_from r xi yi d \<longleftrightarrow>
     (in_raster r (xi + COL_OFFSETS ! nat d) (yi + ROW_OFFSETS ! nat d) \<longrightarrow>
        (\<exists>v. int_pixel r (xi + COL_OFFSETS ! nat d) (yi + ROW_OFFSETS ! nat d) = Some v \<and>
             nibble v (FLOW_DIR_REVERSE_DIRECTION ! nat d) = 0))"

definition neighbor_readable :: "ManagedRaster \<Rightarrow> int \<Rightarrow> int \<Rightarrow> int \<Rightarrow> bool" where
  "neighbor_readable r xi yi d \<longleftrightarrow>
     (in_raster r (xi + COL_OFFSETS ! nat d) (yi + ROW_OFFSETS ! nat d) \<longrightarrow>
        int_pixel r (xi + COL_OFFSETS ! nat d) (yi + ROW_OFFSETS ! nat d) \<noteq> None)"

lemma same_pixels_no_inflow:
  assumes "same_pixels r r'"
  shows "no_inflow_from r' xi yi d = no_inflow_from r xi yi d"
    "neighbor_readable r' xi yi d = neighbor_readable r xi yi d"
  using same_pixels_in_raster [OF assms] same_pixels_int_pixel [OF assms]
  by (auto simp: no_inflow_from_def neighbor_readable_def)

lemma high_point_from:
  assumes "raster_ok r" and "0 \<le> n"
    and "\<forall>d. n \<le> d \<and> d < 8 \<longrightarrow> neighbor_readable r xi yi d"
  shows "\<exists>r'. is_local_high_point_MFD_from r xi yi n =
              Inr ((\<forall>d. n \<le> d \<and> d < 8 \<longrightarrow> no_inflow_from r xi yi d), r')"
  using assms
proof (induction r xi yi n rule: is_local_high_point_MFD_from.induct)
  case (1 r xi yi n)
  note IH = "1.IH"(1)[OF _ _ refl refl] "1.IH"(2)[OF _ _ refl refl _ _ refl _ refl]
  let ?xj = "xi + COL_OFFSETS ! nat n" and ?yj = "yi + ROW_OFFSETS ! nat n"
  show ?case
  proof (cases "n < 8")
    case False
    then show ?thesis
      by (subst is_local_high_point_MFD_from.simps) auto
  next
    case n8: True
    have split: "(\<forall>d. n \<le> d \<and> d < 8 \<longrightarrow> P d) \<longleftrightarrow> P n \<and> (\<forall>d. n + 1 \<le> d \<and> d < 8 \<longrightarrow> P d)" for P
    proof -
      have "n \<le> d \<longleftrightarrow> d = n \<or> n + 1 \<le> d" for d by arith
      with n8 show ?thesis by auto
    qed
    show ?thesis
    proof (cases "in_raster r ?xj ?yj")
      case False
      then have oob: "?xj < 0 \<or> raster_x_size r \<le> ?xj \<or> ?yj < 0 \<or> raster_y_size r \<le> ?yj"
        by (simp add: in_raster_def)
      from False have nn: "no_inflow_from r xi yi n" by (simp add: no_inflow_from_def)
      from "1.prems" have "\<forall>d. n + 1 \<le> d \<and> d < 8 \<longrightarrow> neighbor_readable r xi yi d" by simp
      from IH(1) [OF _ _ oob "1.prems"(1) _ this] n8 "1.prems"(2)
      obtain r' where "is_local_high_point_MFD_from r xi yi (n + 1) =
              Inr ((\<forall>d. n + 1 \<le> d \<and> d < 8 \<longrightarrow> no_inflow_from r xi yi d), r')" by auto
      with n8 "1.prems"(2) oob nn show ?thesis
        by (subst is_local_high_point_MFD_from.simps) (simp add: Let_def split [of "no_inflow_from r xi yi"])
    next
      case inr: True
      then have noob: "\<not> (?xj < 0 \<or> raster_x_size r \<le> ?xj \<or> ?yj < 0 \<or> raster_y_size r \<le> ?yj)"
        by (simp add: in_raster_def)
      obtain r1 where r1: "ManagedRaster_get r ?xj ?yj = Inr (pixel_value r ?xj ?yj, r1)" "raster_ok r1"
        "geometry_of r1 = geometry_of r" "dirty_blocks r1 \<subseteq> dirty_blocks r"
        "\<forall>x' y'. in_raster r x' y' \<longrightarrow> pixel_value r1 x' y' = pixel_value r x' y'"
        by (rule get_raster_ok [OF "1.prems"(1) inr])
      have sp: "same_pixels r r1" using r1(3,5) by (simp add: same_pixels_def)
      from "1.prems"(3) n8 inr obtain v where v: "int_pixel r ?xj ?yj = Some v"
        by (auto simp: neighbor_readable_def)
      then have dv: "double_to_int (pixel_value r ?xj ?yj) = Inr v" by (simp add: int_pixel_Some)
      let ?f = "15 AND drop_bit (nat (4 * FLOW_DIR_REVERSE_DIRECTION ! nat n)) v"
      have nib: "nibble v (FLOW_DIR_REVERSE_DIRECTION ! nat n) = ?f"
        by (simp add: nibble_def and.commute)
      show ?thesis
      proof (cases "?f = 0")
        case False
        then have "\<not> no_inflow_from r xi yi n" using v inr nib by (simp add: no_inflow_from_def)
        with n8 "1.prems"(2) noob r1(1) dv False show ?thesis
          by (subst is_local_high_point_MFD_from.simps) (simp add: Let_def split [of "no_inflow_from r xi yi"])
      next
        case True
        then have nn: "no_inflow_from r xi yi n" using v inr nib by (simp add: no_inflow_from_def)
        from "1.prems"(3) have "\<forall>d. n + 1 \<le> d \<and> d < 8 \<longrightarrow> neighbor_readable r1 xi yi d"
          by (simp add: same_pixels_no_inflow [OF sp])
        from IH(2) [OF _ _ noob r1(1) dv _ r1(2) _ this] n8 "1.prems"(2) True
        obtain r' where "is_local_high_point_MFD_from r1 xi yi (n + 1) =
              Inr ((\<forall>d. n + 1 \<le> d \<and> d < 8 \<longrightarrow> no_inflow_from r1 xi yi d), r')" by auto
        with n8 "1.prems"(2) noob r1(1) dv True nn show ?thesis
          by (subst is_local_high_point_MFD_from.simps)
             (simp add: Let_def split [of "no_inflow_from r xi yi"] same_pixels_no_inflow [OF sp])
      qed
    qed
  qed
qed

lemma example_state_int_pixel:
  "int_pixel (example_state p 0x14 wmode) x y = Some (if x = 2 \<and> y = 1 then 0x14 else 0)"
  "int_pixel (example_state p 0x10004 wmode) x y = Some (if x = 2 \<and> y = 1 then 0x10004 else 0)"
  by (simp_all add: int_pixel_def example_state_pixel double_to_int_def)

lemma example_state_raster_ok: "raster_ok (example_state p v wmode)"
  by (simp add: raster_ok_def example_state_ok)

text \<open>
  C2: on a coherent raster whose neighbouring pixel values convert to \<^verbatim>\<open>int\<close>,
  \<^verbatim>\<open>is_local_high_point\<close> of the multiple flow direction scheme returns true exactly when,
  for every direction \<open>d\<close> in 0..7 whose neighbour is inside the raster, nibble
  \<open>reverse[d]\<close> of the neighbour's value is zero; neighbours outside the raster are skipped.
\<close>

theorem C2_local_high_point_MFD:
  assumes "raster_ok r"
    and "\<forall>d. 0 \<le> d \<and> d < 8 \<longrightarrow>
           in_raster r (xi + COL_OFFSETS ! nat d) (yi + ROW_OFFSETS ! nat d) \<longrightarrow>
           int_pixel r (xi + COL_OFFSETS ! nat d) (yi + ROW_OFFSETS ! nat d) \<noteq> None"
  shows "\<exists>r'. is_local_high_point_MFD r xi yi =
           Inr ((\<forall>d. 0 \<le> d \<and> d < 8 \<longrightarrow>
                   in_raster r (xi + COL_OFFSETS ! nat d) (yi + ROW_OFFSETS ! nat d) \<longrightarrow>
                   (\<exists>v. int_pixel r (xi + COL_OFFSETS ! nat d) (yi + ROW_OFFSETS ! nat d) = Some v \<and>
                        nibble v (FLOW_DIR_REVERSE_DIRECTION ! nat d) = 0)), r')"
proof -
  from assms(2) have "\<forall>d. 0 \<le> d \<and> d < 8 \<longrightarrow> neighbor_readable r xi yi d"
    by (simp add: neighbor_readable_def)
  from high_point_from [OF assms(1) _ this] show ?thesis
    by (simp add: is_local_high_point_MFD_def no_inflow_from_def)
qed

theorem C2_local_high_point_MFD_witness:
  "raster_ok (example_raster ''flow_b'' False) \<and>
   int_pixel (example_raster ''flow_b'' False) 2 1 = Some 0x10004 \<and>
   nibble 0x10004 (FLOW_DIR_REVERSE_DIRECTION ! nat 0) = 1 \<and>
   (\<exists>r'. is_local_high_point_MFD (example_raster ''flow_b'' False) 1 1 = Inr (False, r')) \<and>
   (\<exists>r'. is_local_high_point_MFD (example_raster ''flow_b'' False) 1 0 = Inr (True, r'))"
proof -
  let ?r = "example_raster ''flow_b'' False"
  have ok: "raster_ok ?r" by (simp add: example_raster_eq example_state_raster_ok)
  have ip: "int_pixel ?r x y = Some (if x = 2 \<and> y = 1 then 0x10004 else 0)" for x y
    by (simp add: example_raster_eq example_state_int_pixel)
  have nb: "nibble 0x10004 (FLOW_DIR_REVERSE_DIRECTION ! nat 0) = 1"
    by (simp add: nibble_def FLOW_DIR_REVERSE_DIRECTION_def)
  have rd: "\<forall>d. 0 \<le> d \<and> d < 8 \<longrightarrow>
           in_raster ?r (xi + COL_OFFSETS ! nat d) (yi + ROW_OFFSETS ! nat d) \<longrightarrow>
           int_pixel ?r (xi + COL_OFFSETS ! nat d) (yi + ROW_OFFSETS ! nat d) \<noteq> None" for xi yi
    by (simp add: ip)
  have f: "\<not> (\<forall>d. 0 \<le> d \<and> d < 8 \<longrightarrow>
                   in_raster ?r (1 + COL_OFFSETS ! nat d) (1 + ROW_OFFSETS ! nat d) \<longrightarrow>
                   (\<exists>v. int_pixel ?r (1 + COL_OFFSETS ! nat d) (1 + ROW_OFFSETS ! nat d) = Some v \<and>
                        nibble v (FLOW_DIR_REVERSE_DIRECTION ! nat d) = 0))"
  proof
    assume "\<forall>d. 0 \<le> d \<and> d < 8 \<longrightarrow>
                   in_raster ?r (1 + COL_OFFSETS ! nat d) (1 + ROW_OFFSETS ! nat d) \<longrightarrow>
                   (\<exists>v. int_pixel ?r (1 + COL_OFFSETS ! nat d) (1 + ROW_OFFSETS ! nat d) = Some v \<and>
                        nibble v (FLOW_DIR_REVERSE_DIRECTION ! nat d) = 0)"
    from this [rule_format, of 0]
    have "in_raster ?r 2 1 \<longrightarrow>
            (\<exists>v. int_pixel ?r 2 1 = Some v \<and> nibble v (FLOW_DIR_REVERSE_DIRECTION ! nat 0) = 0)"
      by (simp add: COL_OFFSETS_def ROW_OFFSETS_def)
    moreover have "in_raster ?r 2 1" by (simp add: example_raster_eq example_state_in_raster)
    ultimately show False using nb by (simp add: ip)
  qed
  have t: "(\<forall>d. 0 \<le> d \<and> d < 8 \<longrightarrow>
                   in_raster ?r (1 + COL_OFFSETS ! nat d) (0 + ROW_OFFSETS ! nat d) \<longrightarrow>
                   (\<exists>v. int_pixel ?r (1 + COL_OFFSETS ! nat d) (0 + ROW_OFFSETS ! nat d) = Some v \<and>
                        nibble v (FLOW_DIR_REVERSE_DIRECTION ! nat d) = 0))"
  proof (intro allI impI)
    fix d :: int assume d: "0 \<le> d \<and> d < 8"
    from direction_cases [of d] d
    show "\<exists>v. int_pixel ?r (1 + COL_OFFSETS ! nat d) (0 + ROW_OFFSETS ! nat d) = Some v \<and>
                        nibble v (FLOW_DIR_REVERSE_DIRECTION ! nat d) = 0"
      by (auto simp: ip COL_OFFSETS_def ROW_OFFSETS_def FLOW_DIR_REVERSE_DIRECTION_def nibble_def)
  qed
  from C2_local_high_point_MFD [OF ok rd, of 1 1] f
  have 1: "\<exists>r'. is_local_high_point_MFD ?r 1 1 = Inr (False, r')" by simp
  from C2_local_high_point_MFD [OF ok rd, of 1 0] t
  have 2: "\<exists>r'. is_local_high_point_MFD ?r 1 0 = Inr (True, r')" by simp
  from ok ip [of 2 1] nb 1 2 show ?thesis by simp
qed

section \<open>What the neighbor ranges emit\<close>

text \<open>
  Direction \<open>d\<close> is emitted by the upslope iterators at \<open>(xi, yi)\<close> when the neighbour is
  inside the raster and its nibble \<open>reverse[d]\<close> is not zero; the tuple carries the nibble
  divided by the sum of the eight nibbles (when \<open>nrm\<close> is set) or the nibble itself.
\<close>

definition flows_back :: "ManagedRaster \<Rightarrow> int \<Rightarrow> int \<Rightarrow> int \<Rightarrow> bool" where
  "flows_back r xi yi d \<longleftrightarrow>
     in_raster r (xi + COL_OFFSETS ! nat d) (yi + ROW_OFFSETS ! nat d) \<and>
     (\<exists>v. int_pixel r (xi + COL_OFFSETS ! nat d) (yi + ROW_OFFSETS ! nat d) = Some v \<and>
          nibble v (FLOW_DIR_REVERSE_DIRECTION ! nat d) \<noteq> 0)"

definition upslope_tuple :: "ManagedRaster \<Rightarrow> int \<Rightarrow> int \<Rightarrow> bool \<Rightarrow> int \<Rightarrow> NeighborTuple" where
  "upslope_tuple r xi yi nrm d =
     (let xj = xi + COL_OFFSETS ! nat d;
          yj = yi + ROW_OFFSETS ! nat d;
          v = (case int_pixel r xj yj of Some v \<Rightarrow> v | None \<Rightarrow> 0);
          w = nibble v (FLOW_DIR_REVERSE_DIRECTION ! nat d)
      in \<lparr>nt_direction = d, nt_x = xj, nt_y = yj,
          nt_flow_proportion =
            (if nrm then real_of_int w / real_of_int (nibble_sum v) else real_of_int w)\<rparr>)"

definition upslope_tuples :: "ManagedRaster \<Rightarrow> int \<Rightarrow> int \<Rightarrow> bool \<Rightarrow> int \<Rightarrow> NeighborTuple list" where
  "upslope_tuples r xi yi nrm n =
     map (upslope_tuple r xi yi nrm) (filter (flows_back r xi yi) [n..7])"

lemma nibble_sum_flow_dir_sum: "nibble_sum v = flow_dir_sum v"
  by (simp add: nibble_sum_def nibble_def flow_dir_sum_unfold eval_nat_numeral del: drop_bit_0)

lemma same_pixels_upslope_tuples:
  assumes "same_pixels r r'"
  shows "upslope_tuples r' xi yi nrm n = upslope_tuples r xi yi nrm n"
proof -
  have fb: "flows_back r' xi yi = flows_back r xi yi"
    using same_pixels_in_raster [OF assms] same_pixels_int_pixel [OF assms]
    by (auto simp: flows_back_def fun_eq_iff)
  have "upslope_tuple r' xi yi nrm d = upslope_tuple r xi yi nrm d" if "flows_back r xi yi d" for d
    using that same_pixels_int_pixel [OF assms] by (simp add: upslope_tuple_def flows_back_def)
  then show ?thesis unfolding upslope_tuples_def fb by (auto intro: map_cong)
qed

lemma upslope_tuples_step:
  assumes "0 \<le> n" "n < 8"
  shows "upslope_tuples r xi yi nrm n =
           (if flows_back r xi yi n
            then upslope_tuple r xi yi nrm n # upslope_tuples r xi yi nrm (n + 1)
            else upslope_tuples r xi yi nrm (n + 1))"
proof -
  have "[n..7] = n # [n + 1..7]" using assms by (simp add: upto_rec1)
  then show ?thesis by (simp add: upslope_tuples_def)
qed

lemma upslope_tuples_end: "upslope_tuples r xi yi nrm 8 = []"
  by (simp add: upslope_tuples_def)

lemma UpslopeNeighbors_MFD_from_eq:
  assumes "raster_ok (px_raster (it_pixel it))" and "it_m_ptr it \<noteq> EndValPtr"
    and "0 \<le> it_i it" and "it_i it \<le> 8"
    and "\<forall>d. it_i it \<le> d \<and> d < 8 \<longrightarrow>
           neighbor_readable (px_raster (it_pixel it)) (px_x (it_pixel it)) (px_y (it_pixel it)) d"
  shows "UpslopeNeighbors_MFD_from it =
           Inr (upslope_tuples (px_raster (it_pixel it)) (px_x (it_pixel it)) (px_y (it_pixel it))
                  True (it_i it))"
  using assms
proof (induction "nat (8 - it_i it)" arbitrary: it rule: less_induct)
  case less
  let ?p = "it_pixel it" and ?i = "it_i it"
  let ?r = "px_raster ?p" and ?x = "px_x ?p" and ?y = "px_y ?p"
  note ok = less.prems(1) and np = less.prems(2) and i0 = less.prems(3) and i8 = less.prems(4)
    and rd = less.prems(5)
  show ?case
  proof (cases "?i = 8")
    case True
    with np have "UpslopeNeighborIterator_MFD_next it = Inr (it\<lparr>it_m_ptr := EndValPtr\<rparr>)"
      by (subst UpslopeNeighborIterator_MFD_next.simps) simp
    then have "UpslopeNeighbors_MFD_from it = Inr []"
      by (subst UpslopeNeighbors_MFD_from.simps) simp
    with True show ?thesis by (simp add: upslope_tuples_end)
  next
    case False
    with i8 have i7: "?i < 8" by simp
    note step = upslope_tuples_step [OF i0 i7, of ?r ?x ?y True]
    let ?xj = "?x + COL_OFFSETS ! nat ?i" and ?yj = "?y + ROW_OFFSETS ! nat ?i"
    have m: "nat (8 - (?i + 1)) < nat (8 - ?i)" using i7 by simp
    have rd': "\<forall>d. ?i + 1 \<le> d \<and> d < 8 \<longrightarrow> neighbor_readable ?r ?x ?y d" using rd by simp
    show ?thesis
    proof (cases "in_raster ?r ?xj ?yj")
      case False
      then have oob: "?xj < 0 \<or> raster_x_size ?r \<le> ?xj \<or> ?yj < 0 \<or> raster_y_size ?r \<le> ?yj"
        by (simp add: in_raster_def)
      let ?it1 = "it\<lparr>it_m_ptr := Nullptr, it_i := ?i + 1\<rparr>"
      have n: "UpslopeNeighborIterator_MFD_next it = UpslopeNeighborIterator_MFD_next ?it1"
        using np i0 i7 oob by (subst UpslopeNeighborIterator_MFD_next.simps) (simp add: Let_def)
      have d: "UpslopeNeighbors_MFD_from it = UpslopeNeighbors_MFD_from ?it1"
        by (simp only: UpslopeNeighbors_MFD_from.simps [of it] UpslopeNeighbors_MFD_from.simps [of ?it1] n)
      have "UpslopeNeighbors_MFD_from ?it1 = Inr (upslope_tuples ?r ?x ?y True (?i + 1))"
        using less.hyps [of ?it1] m ok i0 i7 rd' by simp
      moreover have "\<not> flows_back ?r ?x ?y ?i" using False by (simp add: flows_back_def)
      ultimately show ?thesis unfolding d step by simp
    next
      case inr: True
      then have noob: "\<not> (?xj < 0 \<or> raster_x_size ?r \<le> ?xj \<or> ?yj < 0 \<or> raster_y_size ?r \<le> ?yj)"
        by (simp add: in_raster_def)
      obtain r1 where r1: "ManagedRaster_get ?r ?xj ?yj = Inr (pixel_value ?r ?xj ?yj, r1)" "raster_ok r1"
        "geometry_of r1 = geometry_of ?r" "dirty_blocks r1 \<subseteq> dirty_blocks ?r"
        "\<forall>x' y'. in_raster ?r x' y' \<longrightarrow> pixel_value r1 x' y' = pixel_value ?r x' y'"
        by (rule get_raster_ok [OF ok inr])
      have sp: "same_pixels ?r r1" using r1(3,5) by (simp add: same_pixels_def)
      from rd i0 i7 inr obtain v where v: "int_pixel ?r ?xj ?yj = Some v"
        by (auto simp: neighbor_readable_def)
      then have dv: "double_to_int (pixel_value ?r ?xj ?yj) = Inr v" by (simp add: int_pixel_Some)
      let ?f = "15 AND drop_bit (nat (4 * FLOW_DIR_REVERSE_DIRECTION ! nat ?i)) v"
      have nib: "nibble v (FLOW_DIR_REVERSE_DIRECTION ! nat ?i) = ?f"
        by (simp add: nibble_def and.commute)
      let ?p1 = "?p\<lparr>px_raster := r1\<rparr>"
      have rd1: "\<forall>d. ?i + 1 \<le> d \<and> d < 8 \<longrightarrow> neighbor_readable r1 ?x ?y d"
        using rd' by (simp add: same_pixels_no_inflow [OF sp])
      show ?thesis
      proof (cases "?f = 0")
        case True
        let ?it2 = "it\<lparr>it_pixel := ?p1, it_m_ptr := Nullptr, it_i := ?i + 1\<rparr>"
        have n: "UpslopeNeighborIterator_MFD_next it = UpslopeNeighborIterator_MFD_next ?it2"
          using np i0 i7 noob r1(1) dv True by (subst UpslopeNeighborIterator_MFD_next.simps) (simp add: Let_def)
        have d: "UpslopeNeighbors_MFD_from it = UpslopeNeighbors_MFD_from ?it2"
          by (simp only: UpslopeNeighbors_MFD_from.simps [of it] UpslopeNeighbors_MFD_from.simps [of ?it2] n)
        have "UpslopeNeighbors_MFD_from ?it2 = Inr (upslope_tuples r1 ?x ?y True (?i + 1))"
          using less.hyps [of ?it2] m r1(2) i0 i7 rd1 by simp
        moreover have "\<not> flows_back ?r ?x ?y ?i" using True v nib by (simp add: flows_back_def)
        ultimately show ?thesis
          unfolding d step by (simp add: same_pixels_upslope_tuples [OF sp])
      next
        case False
        let ?t = "\<lparr>nt_direction = ?i, nt_x = ?xj, nt_y = ?yj, nt_flow_proportion = real_of_int ?f / real_of_int (flow_dir_sum v)\<rparr>"
        let ?it3 = "it\<lparr>it_pixel := ?p1, it_m_ptr := TuplePtr ?t, it_i := ?i + 1\<rparr>"
        have s0: "flow_dir_sum v \<noteq> 0"
          using flow_ji_le_sum [OF i0 i7, of v]
            flow_ji_pos [OF False] by linarith
        have n: "UpslopeNeighborIterator_MFD_next it = Inr ?it3"
          using np i0 i7 noob r1(1) dv False s0
          by (subst UpslopeNeighborIterator_MFD_next.simps) (simp add: Let_def float_div_def)
        have d: "UpslopeNeighbors_MFD_from it = map_sum id ((#) ?t) (UpslopeNeighbors_MFD_from ?it3)"
          by (subst UpslopeNeighbors_MFD_from.simps) (simp add: n)
        have "UpslopeNeighbors_MFD_from ?it3 = Inr (upslope_tuples r1 ?x ?y True (?i + 1))"
          using less.hyps [of ?it3] m r1(2) i0 i7 rd1 by simp
        moreover have "flows_back ?r ?x ?y ?i" using False v nib inr by (simp add: flows_back_def)
        moreover have "upslope_tuple ?r ?x ?y True ?i = ?t"
          using v nib by (simp add: upslope_tuple_def nibble_sum_flow_dir_sum)
        ultimately show ?thesis
          unfolding d step by (simp add: same_pixels_upslope_tuples [OF sp])
      qed
    qed
  qed
qed

lemma UpslopeNeighborsNoDivide_MFD_from_eq:
  assumes "raster_ok (px_raster (it_pixel it))" and "it_m_ptr it \<noteq> EndValPtr"
    and "0 \<le> it_i it" and "it_i it \<le> 8"
    and "\<forall>d. it_i it \<le> d \<and> d < 8 \<longrightarrow>
           neighbor_readable (px_raster (it_pixel it)) (px_x (it_pixel it)) (px_y (it_pixel it)) d"
  shows "UpslopeNeighborsNoDivide_MFD_from it =
           Inr (upslope_tuples (px_raster (it_pixel it)) (px_x (it_pixel it)) (px_y (it_pixel it))
                  False (it_i it))"
  using assms
proof (induction "nat (8 - it_i it)" arbitrary: it rule: less_induct)
  case less
  let ?p = "it_pixel it" and ?i = "it_i it"
  let ?r = "px_raster ?p" and ?x = "px_x ?p" and ?y = "px_y ?p"
  note ok = less.prems(1) and np = less.prems(2) and i0 = less.prems(3) and i8 = less.prems(4)
    and rd = less.prems(5)
  show ?case
  proof (cases "?i = 8")
    case True
    with np have "UpslopeNeighborNoDivideIterator_MFD_next it = Inr (it\<lparr>it_m_ptr := EndValPtr\<rparr>)"
      by (subst UpslopeNeighborNoDivideIterator_MFD_next.simps) simp
    then have "UpslopeNeighborsNoDivide_MFD_from it = Inr []"
      by (subst UpslopeNeighborsNoDivide_MFD_from.simps) simp
    with True show ?thesis by (simp add: upslope_tuples_end)
  next
    case False
    with i8 have i7: "?i < 8" by simp
    note step = upslope_tuples_step [OF i0 i7, of ?r ?x ?y False]
    let ?xj = "?x + COL_OFFSETS ! nat ?i" and ?yj = "?y + ROW_OFFSETS ! nat ?i"
    have m: "nat (8 - (?i + 1)) < nat (8 - ?i)" using i7 by simp
    have rd': "\<forall>d. ?i + 1 \<le> d \<and> d < 8 \<longrightarrow> neighbor_readable ?r ?x ?y d" using rd by simp
    show ?thesis
    proof (cases "in_raster ?r ?xj ?yj")
      case False
      then have oob: "?xj < 0 \<or> raster_x_size ?r \<le> ?xj \<or> ?yj < 0 \<or> raster_y_size ?r \<le> ?yj"
        by (simp add: in_raster_def)
      let ?it1 = "it\<lparr>it_m_ptr := Nullptr, it_i := ?i + 1\<rparr>"
      have n: "UpslopeNeighborNoDivideIterator_MFD_next it = UpslopeNeighborNoDivideIterator_MFD_next ?it1"
        using np i0 i7 oob by (subst UpslopeNeighborNoDivideIterator_MFD_next.simps) (simp add: Let_def)
      have d: "UpslopeNeighborsNoDivide_MFD_from it = UpslopeNeighborsNoDivide_MFD_from ?it1"
        by (simp only: UpslopeNeighborsNoDivide_MFD_from.simps [of it] UpslopeNeighborsNoDivide_MFD_from.simps [of ?it1] n)
      have "UpslopeNeighborsNoDivide_MFD_from ?it1 = Inr (upslope_tuples ?r ?x ?y False (?i + 1))"
        using less.hyps [of ?it1] m ok i0 i7 rd' by simp
      moreover have "\<not> flows_back ?r ?x ?y ?i" using False by (simp add: flows_back_def)
      ultimately show ?thesis unfolding d step by simp
    next
      case inr: True
      then have noob: "\<not> (?xj < 0 \<or> raster_x_size ?r \<le> ?xj \<or> ?yj < 0 \<or> raster_y_size ?r \<le> ?yj)"
        by (simp add: in_raster_def)
      obtain r1 where r1: "ManagedRaster_get ?r ?xj ?yj = Inr (pixel_value ?r ?xj ?yj, r1)" "raster_ok r1"
        "geometry_of r1 = geometry_of ?r" "dirty_blocks r1 \<subseteq> dirty_blocks ?r"
        "\<forall>x' y'. in_raster ?r x' y' \<longrightarrow> pixel_value r1 x' y' = pixel_value ?r x' y'"
        by (rule get_raster_ok [OF ok inr])
      have sp: "same_pixels ?r r1" using r1(3,5) by (simp add: same_pixels_def)
      from rd i0 i7 inr obtain v where v: "int_pixel ?r ?xj ?yj = Some v"
        by (auto simp: neighbor_readable_def)
      then have dv: "double_to_int (pixel_value ?r ?xj ?yj) = Inr v" by (simp add: int_pixel_Some)
      let ?f = "15 AND drop_bit (nat (4 * FLOW_DIR_REVERSE_DIRECTION ! nat ?i)) v"
      have nib: "nibble v (FLOW_DIR_REVERSE_DIRECTION ! nat ?i) = ?f"
        by (simp add: nibble_def and.commute)
      let ?p1 = "?p\<lparr>px_raster := r1\<rparr>"
      have rd1: "\<forall>d. ?i + 1 \<le> d \<and> d < 8 \<longrightarrow> neighbor_readable r1 ?x ?y d"
        using rd' by (simp add: same_pixels_no_inflow [OF sp])
      show ?thesis
      proof (cases "?f = 0")
        case True
        let ?it2 = "it\<lparr>it_pixel := ?p1, it_m_ptr := Nullptr, it_i := ?i + 1\<rparr>"
        have n: "UpslopeNeighborNoDivideIterator_MFD_next it = UpslopeNeighborNoDivideIterator_MFD_next ?it2"
          using np i0 i7 noob r1(1) dv True by (subst UpslopeNeighborNoDivideIterator_MFD_next.simps) (simp add: Let_def)
        have d: "UpslopeNeighborsNoDivide_MFD_from it = UpslopeNeighborsNoDivide_MFD_from ?it2"
          by (simp only: UpslopeNeighborsNoDivide_MFD_from.simps [of it] UpslopeNeighborsNoDivide_MFD_from.simps [of ?it2] n)
        have "UpslopeNeighborsNoDivide_MFD_from ?it2 = Inr (upslope_tuples r1 ?x ?y False (?i + 1))"
          using less.hyps [of ?it2] m r1(2) i0 i7 rd1 by simp
        moreover have "\<not> flows_back ?r ?x ?y ?i" using True v nib by (simp add: flows_back_def)
        ultimately show ?thesis
          unfolding d step by (simp add: same_pixels_upslope_tuples [OF sp])
      next
        case False
        let ?t = "\<lparr>nt_direction = ?i, nt_x = ?xj, nt_y = ?yj, nt_flow_proportion = real_of_int ?f\<rparr>"
        let ?it3 = "it\<lparr>it_pixel := ?p1, it_m_ptr := TuplePtr ?t, it_i := ?i + 1\<rparr>"
        have n: "UpslopeNeighborNoDivideIterator_MFD_next it = Inr ?it3"
          using np i0 i7 noob r1(1) dv False
          by (subst UpslopeNeighborNoDivideIterator_MFD_next.simps) (simp add: Let_def float_div_def)
        have d: "UpslopeNeighborsNoDivide_MFD_from it = map_sum id ((#) ?t) (UpslopeNeighborsNoDivide_MFD_from ?it3)"
          by (subst UpslopeNeighborsNoDivide_MFD_from.simps) (simp add: n)
        have "UpslopeNeighborsNoDivide_MFD_from ?it3 = Inr (upslope_tuples r1 ?x ?y False (?i + 1))"
          using less.hyps [of ?it3] m r1(2) i0 i7 rd1 by simp
        moreover have "flows_back ?r ?x ?y ?i" using False v nib inr by (simp add: flows_back_def)
        moreover have "upslope_tuple ?r ?x ?y False ?i = ?t"
          using v nib by (simp add: upslope_tuple_def nibble_sum_flow_dir_sum)
        ultimately show ?thesis
          unfolding d step by (simp add: same_pixels_upslope_tuples [OF sp])
      qed
    qed
  qed
qed

end
